theory Spec2Isabelle
  imports Main "HOL-Library.Multiset"
begin

section \<open>Strings and constants of \<open>main.go\<close>\<close>

text \<open>
  A Go string is a sequence of bytes and \<open>len\<close> counts bytes; \<^typ>\<open>string\<close> is a
  list of 8-bit characters, so \<^const>\<open>length\<close> is Go's \<open>len\<close>. The string
  literals of the source that hold characters outside ASCII are written out as the
  UTF-8 bytes found in the source file.
\<close>

definition newline :: char where
  "newline = CHR 0x0A"

definition carriage_return :: char where
  "carriage_return = CHR 0x0D"

definition telegramMsgLimit :: nat where
  "telegramMsgLimit = 4096"

definition maxRetries :: nat where
  "maxRetries = 4"

text \<open>\<open>time.Duration\<close> counts nanoseconds.\<close>

definition second :: int where
  "second = 1000000000"

definition initialRetryDelay :: int where
  "initialRetryDelay = 5 * second"

text \<open>U+1F5A5 U+FE0F, U+26A0 U+FE0F, U+1F534, U+1F7E2, U+2705 and U+2139 U+FE0F in UTF-8.\<close>

definition emoji_host :: string where
  "emoji_host = [CHR 0xF0, CHR 0x9F, CHR 0x96, CHR 0xA5, CHR 0xEF, CHR 0xB8, CHR 0x8F]"

definition emoji_warning :: string where
  "emoji_warning = [CHR 0xE2, CHR 0x9A, CHR 0xA0, CHR 0xEF, CHR 0xB8, CHR 0x8F]"

definition emoji_red :: string where
  "emoji_red = [CHR 0xF0, CHR 0x9F, CHR 0x94, CHR 0xB4]"

definition emoji_green :: string where
  "emoji_green = [CHR 0xF0, CHR 0x9F, CHR 0x9F, CHR 0xA2]"

definition emoji_check :: string where
  "emoji_check = [CHR 0xE2, CHR 0x9C, CHR 0x85]"

definition emoji_info :: string where
  "emoji_info = [CHR 0xE2, CHR 0x84, CHR 0xB9, CHR 0xEF, CHR 0xB8, CHR 0x8F]"


section \<open>The map \<open>lastErrorState\<close>\<close>

text \<open>
  \<open>map[string]string\<close> is modelled by the list of its entries, keys distinct. The
  operations the program uses on it are indexing (a missing key reads as the empty
  string), the comma-ok test, assignment to a key, \<open>len\<close>, \<open>reflect.DeepEqual\<close>
  and \<open>range\<close>.
\<close>

type_synonym gomap = "(string \<times> string) list"

definition map_index :: "gomap \<Rightarrow> string \<Rightarrow> string" where
  "map_index m k = (case map_of m k of None \<Rightarrow> [] | Some v \<Rightarrow> v)"

definition map_exists :: "gomap \<Rightarrow> string \<Rightarrow> bool" where
  "map_exists m k = (case map_of m k of None \<Rightarrow> False | Some v \<Rightarrow> True)"

fun map_assign :: "gomap \<Rightarrow> string \<Rightarrow> string \<Rightarrow> gomap" where
  "map_assign [] k v = [(k, v)]"
| "map_assign ((k', v') # m) k v =
     (if k' = k then (k, v) # m else (k', v') # map_assign m k v)"

text \<open>
  \<open>reflect.DeepEqual\<close> on two non-nil maps: the same number of entries, and every
  key of the first is a key of the second with an equal value. Every map of the program
  is made by \<open>make\<close> or by a literal, so none is nil.
\<close>

definition deepEqual :: "gomap \<Rightarrow> gomap \<Rightarrow> bool" where
  "deepEqual a b =
     (length a = length b \<and> list_all (\<lambda>(k, v). map_of b k = Some v) a)"

text \<open>
  The order in which \<open>range\<close> visits a map is not specified by Go and may differ from
  one loop to the next. The runtime's choice is the parameter \<open>pick\<close>; whatever it
  returns, the loop visits every entry exactly once.
\<close>

definition go_range :: "(gomap \<Rightarrow> gomap) \<Rightarrow> gomap \<Rightarrow> gomap" where
  "go_range pick m = (if mset (pick m) = mset m then pick m else m)"


section \<open>The environment and the effects of the program\<close>

datatype log_line =
    LogPowerShellError string
  | LogCheckResult string
  | LogStatusChanged
  | LogStatusUnchanged
  | LogSentOK
  | LogSendFailed nat nat string
  | LogWaiting int
  | LogGaveUp nat
  | LogManualTest
  | LogSendingSummary

text \<open>
  What the program does to the outside: a request to \<open>sendMessage\<close> (text and the
  \<open>silent\<close> flag; \<open>parse_mode\<close> is always Markdown), a request to \<open>sendDocument\<close>
  (file name and content), a \<open>time.Sleep\<close>, a line of the log, a line on standard
  output.
\<close>

datatype event =
    SendText string bool
  | SendDocument string string
  | Sleep int
  | Log log_line
  | Print string

text \<open>
  What the outside gives the program: the host name (\<open>os.Hostname\<close>, whose error is
  dropped, leaving the empty string), for each request to the messaging endpoint,
  numbered in the order the requests are made, the formatted time of \<open>time.Now\<close>
  and the error that comes back (\<open>None\<close> is Go's \<open>nil\<close>), and the iteration order
  of each of the three \<open>range\<close> loops over a map (numbered 0, 1, 2 in the order of
  the source).
\<close>

record env =
  hostname :: string
  now :: "nat \<Rightarrow> string"
  transport_error :: "nat \<Rightarrow> string option"
  pick :: "nat \<Rightarrow> gomap \<Rightarrow> gomap"

record world =
  lastErrorState :: gomap
  effects :: "event list"

definition initial_world :: world where
  "initial_world = \<lparr>lastErrorState = [], effects = []\<rparr>"

definition emit :: "event \<Rightarrow> world \<Rightarrow> world" where
  "emit e w = w\<lparr>effects := effects w @ [e]\<rparr>"

fun is_request :: "event \<Rightarrow> bool" where
  "is_request (SendText m s) = True"
| "is_request (SendDocument f c) = True"
| "is_request e = False"

definition requests :: "event list \<Rightarrow> event list" where
  "requests es = filter is_request es"

fun is_sleep :: "event \<Rightarrow> bool" where
  "is_sleep (Sleep d) = True"
| "is_sleep e = False"

definition sleeps :: "event list \<Rightarrow> event list" where
  "sleeps es = filter is_sleep es"

definition request_number :: "world \<Rightarrow> nat" where
  "request_number w = length (requests (effects w))"

definition request :: "env \<Rightarrow> event \<Rightarrow> world \<Rightarrow> string option \<times> world" where
  "request env e w = (transport_error env (request_number w), emit e w)"


section \<open>The delivery engine\<close>

definition sendTelegramText :: "env \<Rightarrow> string \<Rightarrow> bool \<Rightarrow> world \<Rightarrow> string option \<times> world" where
  "sendTelegramText env message silent w = request env (SendText message silent) w"

definition fileName :: "env \<Rightarrow> nat \<Rightarrow> string" where
  "fileName env n = ''log_'' @ hostname env @ ''_'' @ now env n @ ''.txt''"

definition sendTelegramDocument :: "env \<Rightarrow> string \<Rightarrow> world \<Rightarrow> string option \<times> world" where
  "sendTelegramDocument env content w =
     request env (SendDocument (fileName env (request_number w)) content) w"

text \<open>\<open>fmt.Sprintf\<close> of the host emoji, \<open>" **Host:** `%s`\n\n%s"\<close>.\<close>

definition fullMessage :: "string \<Rightarrow> string \<Rightarrow> string" where
  "fullMessage host message =
     emoji_host @ '' **Host:** `'' @ host @ ''`'' @ [newline, newline] @ message"

text \<open>Lines 342 to 346: the choice of the transport, made anew at every attempt.\<close>

definition send_once :: "env \<Rightarrow> string \<Rightarrow> world \<Rightarrow> string option \<times> world" where
  "send_once env full w =
     (if length full > telegramMsgLimit then sendTelegramDocument env full w
      else sendTelegramText env full False w)"

text \<open>
  \<open>initialRetryDelay * time.Duration(math.Pow(3, float64(i)))\<close>. The loop calls it
  with \<open>i\<close> from 0 to 3, where the power is a small integer that \<open>float64\<close> holds
  exactly and the product is far below \<open>2^63\<close>.
\<close>

definition retry_delay :: "nat \<Rightarrow> int" where
  "retry_delay i = initialRetryDelay * 3 ^ i"

text \<open>
  The loop \<open>for i := 0; i <= maxRetries; i++\<close>. Success returns from the function;
  \<open>break\<close> and the end of the loop both reach the last log line.
\<close>

function send_attempts :: "env \<Rightarrow> string \<Rightarrow> nat \<Rightarrow> world \<Rightarrow> world" where
  "send_attempts env full i w =
     (if i \<le> maxRetries then
        (case send_once env full w of
           (None, w1) \<Rightarrow> emit (Log LogSentOK) w1
         | (Some err, w1) \<Rightarrow>
             (let w2 = emit (Log (LogSendFailed (i + 1) (maxRetries + 1) err)) w1 in
              if i = maxRetries then emit (Log (LogGaveUp (maxRetries + 1))) w2
              else send_attempts env full (i + 1)
                     (emit (Sleep (retry_delay i)) (emit (Log (LogWaiting (retry_delay i))) w2))))
      else emit (Log (LogGaveUp (maxRetries + 1))) w)"
  by pat_completeness auto
termination
  by (relation "measure (\<lambda>(env, full, i, w). maxRetries + 1 - i)") auto

definition sendTelegramNotification :: "env \<Rightarrow> string \<Rightarrow> world \<Rightarrow> world" where
  "sendTelegramNotification env message w =
     send_attempts env (fullMessage (hostname env) message) 0 w"


text \<open>The request that lines 342 to 346 make for a message, as a value.\<close>

definition request_event :: "env \<Rightarrow> string \<Rightarrow> nat \<Rightarrow> event" where
  "request_event env full n =
     (if length full > telegramMsgLimit then SendDocument (fileName env n) full
      else SendText full False)"


section \<open>The report parser\<close>

text \<open>
  \<open>bufio.Scanner\<close> with its default split function \<open>ScanLines\<close>: the input is cut
  at every line feed; a last line without a line feed is a line when it is not empty.
\<close>

fun split_lines :: "string \<Rightarrow> string \<Rightarrow> string list" where
  "split_lines acc [] = (if acc = [] then [] else [acc])"
| "split_lines acc (c # cs) =
     (if c = newline then acc # split_lines [] cs else split_lines (acc @ [c]) cs)"

text \<open>\<open>dropCR\<close> of package \<open>bufio\<close>: one carriage return at the end is dropped.\<close>

definition dropCR :: "string \<Rightarrow> string" where
  "dropCR l = (if l \<noteq> [] \<and> last l = carriage_return then butlast l else l)"

text \<open>
  The scanner's buffer holds \<open>bufio.MaxScanTokenSize\<close>, 64 KiB. A line that does not
  fit with its line feed makes \<open>Scan\<close> return false (its error is not read by the
  program), and the loop ends there.
\<close>

definition maxScanTokenSize :: nat where
  "maxScanTokenSize = 64 * 1024"

definition scanner_lines :: "string \<Rightarrow> string list" where
  "scanner_lines outputStr =
     map dropCR (takeWhile (\<lambda>l. length l < maxScanTokenSize) (split_lines [] outputStr))"

text \<open>
  The regular expression
  \<open>(ReallocatedSectors|PendingSectors|UncorrectedErrors|Wear):\s*(\d+)\<close>.
  In Go's syntax \<open>\s\<close> is one of tab, line feed, form feed, carriage return and space,
  and \<open>\d\<close> is an ASCII digit. The alternatives are tried in the order written and
  both repetitions are greedy.
\<close>

definition counter_names :: "string list" where
  "counter_names = [''ReallocatedSectors'', ''PendingSectors'', ''UncorrectedErrors'', ''Wear'']"

definition is_space :: "char \<Rightarrow> bool" where
  "is_space c = (c \<in> set [CHR 0x09, CHR 0x0A, CHR 0x0C, CHR 0x0D, CHR '' ''])"

definition is_digit :: "char \<Rightarrow> bool" where
  "is_digit c = (c \<in> set ''0123456789'')"

fun has_prefix :: "string \<Rightarrow> string \<Rightarrow> bool" where
  "has_prefix [] s = True"
| "has_prefix (a # p) [] = False"
| "has_prefix (a # p) (b # s) = (a = b \<and> has_prefix p s)"

text \<open>
  A match is the matched text with its two groups, as \<open>FindAllStringSubmatch\<close> returns
  it; \<open>match_name\<close> and \<open>match_here\<close> also return the text after the match.
\<close>

type_synonym submatch = "string \<times> string \<times> string"

definition match_name :: "string \<Rightarrow> string \<Rightarrow> (submatch \<times> string) option" where
  "match_name name s =
     (if has_prefix name s then
        (case drop (length name) s of
           [] \<Rightarrow> None
         | c # s2 \<Rightarrow>
             if c = CHR '':'' then
               (let ws = takeWhile is_space s2;
                    s3 = dropWhile is_space s2;
                    ds = takeWhile is_digit s3
                in if ds = [] then None
                   else Some ((name @ '':'' @ ws @ ds, name, ds), dropWhile is_digit s3))
             else None)
      else None)"

fun match_alternatives :: "string list \<Rightarrow> string \<Rightarrow> (submatch \<times> string) option" where
  "match_alternatives [] s = None"
| "match_alternatives (name # names) s =
     (case match_name name s of
        Some r \<Rightarrow> Some r
      | None \<Rightarrow> match_alternatives names s)"

definition match_here :: "string \<Rightarrow> (submatch \<times> string) option" where
  "match_here s = match_alternatives counter_names s"

text \<open>
  \<open>re.FindAllStringSubmatch(line, -1)\<close>: the matches from left to right, each search
  starting where the match before it ended. The expression matches no empty text.
  The counter \<open>skip\<close> is the number of characters of the last match still to pass.
\<close>

fun find_from :: "nat \<Rightarrow> string \<Rightarrow> submatch list" where
  "find_from skip [] = []"
| "find_from (Suc skip) (c # cs) = find_from skip cs"
| "find_from 0 (c # cs) =
     (case match_here (c # cs) of
        None \<Rightarrow> find_from 0 cs
      | Some ((whole, name, digits), rest) \<Rightarrow>
          (whole, name, digits) # find_from (length whole - 1) cs)"

definition findAllStringSubmatch :: "string \<Rightarrow> submatch list" where
  "findAllStringSubmatch line = find_from 0 line"

text \<open>
  \<open>strconv.Atoi\<close> is only called on the second group, a non-empty run of digits. It
  returns the number, or the largest \<open>int\<close> together with a range error when the
  number does not fit; the program drops the error. \<open>int\<close> has 64 bits on the
  platforms the service is built for.
\<close>

definition digit_value :: "char \<Rightarrow> nat" where
  "digit_value c = of_char c - 48"

definition decimal :: "string \<Rightarrow> nat" where
  "decimal ds = foldl (\<lambda>n c. 10 * n + digit_value c) 0 ds"

definition maxInt :: int where
  "maxInt = 2 ^ 63 - 1"

definition atoi :: "string \<Rightarrow> int" where
  "atoi ds = (if int (decimal ds) > maxInt then maxInt else int (decimal ds))"

text \<open>Lines 289 to 296: the loop over the matches, left at the first positive value.\<close>

fun hasProblem :: "submatch list \<Rightarrow> bool" where
  "hasProblem [] = False"
| "hasProblem ((whole, name, digits) # matches) =
     (if atoi digits > 0 then True else hasProblem matches)"

text \<open>\<open>strings.Split(line, sep)[0]\<close> for a separator that is not empty.\<close>

fun split_first :: "string \<Rightarrow> string \<Rightarrow> string" where
  "split_first sep [] = []"
| "split_first sep (c # cs) =
     (if has_prefix sep (c # cs) then [] else c # split_first sep cs)"

definition diskIdentifier :: "string \<Rightarrow> string" where
  "diskIdentifier line = split_first '' - '' line"

text \<open>Lines 287 to 300: the body of the loop over the lines.\<close>

definition scan_line :: "gomap \<Rightarrow> string \<Rightarrow> gomap" where
  "scan_line currentProblems line =
     (if hasProblem (findAllStringSubmatch line)
      then map_assign currentProblems (diskIdentifier line) line
      else currentProblems)"

definition parseProblems :: "string \<Rightarrow> gomap" where
  "parseProblems outputStr = foldl scan_line [] (scanner_lines outputStr)"


section \<open>The check cycle\<close>

definition sentinel :: string where
  "sentinel = ''powershell_error''"

definition acquisition_message :: "string \<Rightarrow> string" where
  "acquisition_message err = ''Failed to run PowerShell command: '' @ err"

definition diff_header :: string where
  "diff_header = ''Disk health status has changed!'' @ [newline, newline]"

definition detected_block :: "string \<Rightarrow> string" where
  "detected_block problem =
     emoji_red @ '' **Problem Detected/Changed:**'' @ [newline] @ ''`'' @ problem @ ''`''
       @ [newline, newline]"

definition resolved_block :: "string \<Rightarrow> string" where
  "resolved_block disk =
     emoji_green @ '' **Problem Resolved:**'' @ [newline] @ ''`'' @ disk @ ''` is now OK.''
       @ [newline, newline]"

text \<open>
  Lines 312 to 316 and 319 to 324: the two loops that write to the string builder, given
  the entries in the order \<open>range\<close> visits them.
\<close>

fun detected_loop :: "gomap \<Rightarrow> (string \<times> string) list \<Rightarrow> string \<Rightarrow> string" where
  "detected_loop last_state [] builder = builder"
| "detected_loop last_state ((disk, problem) # entries) builder =
     detected_loop last_state entries
       (if map_index last_state disk \<noteq> problem then builder @ detected_block problem
        else builder)"

fun resolved_loop :: "gomap \<Rightarrow> (string \<times> string) list \<Rightarrow> string \<Rightarrow> string" where
  "resolved_loop currentProblems [] builder = builder"
| "resolved_loop currentProblems ((disk, problem) # entries) builder =
     resolved_loop currentProblems entries
       (if \<not> map_exists currentProblems disk then builder @ resolved_block disk
        else builder)"

definition diff_message :: "env \<Rightarrow> gomap \<Rightarrow> gomap \<Rightarrow> string" where
  "diff_message env last_state currentProblems =
     resolved_loop currentProblems (go_range (pick env 1) last_state)
       (detected_loop last_state (go_range (pick env 0) currentProblems) diff_header)"

text \<open>
  \<open>checkDiskStatusAndNotify\<close>. The result of \<open>cmd.Output()\<close> is the argument
  \<open>output\<close>: \<open>Inl\<close> the text of the error, \<open>Inr\<close> the standard output of the script.
\<close>

definition checkDiskStatusAndNotify :: "env \<Rightarrow> string + string \<Rightarrow> world \<Rightarrow> world" where
  "checkDiskStatusAndNotify env output w =
     (case output of
        Inl err \<Rightarrow>
          (let currentErrorMsg = acquisition_message err in
           if map_index (lastErrorState w) sentinel \<noteq> currentErrorMsg then
             (let w1 = emit (Log (LogPowerShellError currentErrorMsg)) w;
                  w2 = sendTelegramNotification env (emoji_warning @ '' '' @ currentErrorMsg) w1
              in w2\<lparr>lastErrorState := [(sentinel, currentErrorMsg)]\<rparr>)
           else w)
      | Inr outputStr \<Rightarrow>
          (let w1 = emit (Log (LogCheckResult outputStr)) w;
               currentProblems = parseProblems outputStr
           in if \<not> deepEqual currentProblems (lastErrorState w1) then
                (let w2 = emit (Log LogStatusChanged) w1;
                     w3 = sendTelegramNotification env
                            (diff_message env (lastErrorState w2) currentProblems) w2
                 in w3\<lparr>lastErrorState := currentProblems\<rparr>)
              else emit (Log LogStatusUnchanged) w1))"


section \<open>The command \<open>test\<close> of \<open>main\<close>\<close>

text \<open>\<open>strings.Join\<close>.\<close>

fun join :: "string list \<Rightarrow> string \<Rightarrow> string" where
  "join [] sep = []"
| "join [x] sep = x"
| "join (x # y # xs) sep = x @ sep @ join (y # xs) sep"

definition no_problems_message :: string where
  "no_problems_message = emoji_check @ '' Test complete. No active problems found.''"

text \<open>Lines 165 to 174.\<close>

definition summaryMessage :: "env \<Rightarrow> gomap \<Rightarrow> string" where
  "summaryMessage env last_state =
     (if length last_state = 0 then no_problems_message
      else emoji_info @ '' Test complete. Current active problems:'' @ [newline, newline]
             @ ''`'' @ join (map snd (go_range (pick env 2) last_state)) (''`'' @ [newline] @ ''`'')
             @ ''`'')"

text \<open>Lines 159 to 179, the branch \<open>case "test"\<close>: first the check cycle, then the summary.\<close>

definition test_cycle :: "env \<Rightarrow> string + string \<Rightarrow> world \<Rightarrow> world" where
  "test_cycle env output w =
     checkDiskStatusAndNotify env output
       (emit (Log LogManualTest) (emit (Print ''Running a one-time stateful check...'') w))"

definition run_test :: "env \<Rightarrow> string + string \<Rightarrow> world \<Rightarrow> world" where
  "run_test env output w =
     (let w1 = test_cycle env output w;
          w2 = emit (Log LogSendingSummary) w1;
          w3 = sendTelegramNotification env (summaryMessage env (lastErrorState w1)) w2
      in emit (Print ''Test complete. See log for details.'') w3)"


section \<open>The specification's notions\<close>

text \<open>
  The specification's two collections of the State Differ, in its words: the devices
  present in \<open>current\<close> whose description differs from \<open>previous\<close>, including devices
  absent from \<open>previous\<close>; the devices present in \<open>previous\<close> but absent from
  \<open>current\<close>.
\<close>

definition spec_changedOrNew :: "gomap \<Rightarrow> gomap \<Rightarrow> (string \<times> string) list" where
  "spec_changedOrNew previous current =
     filter (\<lambda>(device, description). map_of previous device \<noteq> Some description) current"

definition spec_resolved :: "gomap \<Rightarrow> gomap \<Rightarrow> string list" where
  "spec_resolved previous current =
     filter (\<lambda>device. map_of current device = None) (map fst previous)"

text \<open>
  The claim's problem line, in its words: one of the four named counters matches the
  pattern \<open><Name>: <digits>\<close>, that is the name, a colon, one blank and a run of digits,
  with a value strictly greater than zero. The names, the digits and the value of a run of
  digits (positional, base ten) are written out here, apart from the matcher.
\<close>

definition spec_counter_names :: "string set" where
  "spec_counter_names = {''Wear'', ''ReallocatedSectors'', ''PendingSectors'', ''UncorrectedErrors''}"

definition spec_digits :: "char set" where
  "spec_digits = set ''0123456789''"

definition spec_digit_value :: "char \<Rightarrow> nat" where
  "spec_digit_value c =
     (case map_of (zip ''0123456789'' [0, 1, 2, 3, 4, 5, 6, 7, 8, 9]) c of
        Some v \<Rightarrow> v
      | None \<Rightarrow> 0)"

fun spec_value :: "string \<Rightarrow> nat" where
  "spec_value [] = 0"
| "spec_value (c # cs) = spec_digit_value c * 10 ^ length cs + spec_value cs"

definition spec_problem_line :: "string \<Rightarrow> bool" where
  "spec_problem_line line =
     (\<exists>before name ds after.
        line = before @ name @ '': '' @ ds @ after \<and> name \<in> spec_counter_names \<and>
        ds \<noteq> [] \<and> set ds \<subseteq> spec_digits \<and> 0 < spec_value ds)"

text \<open>
  The problem line of the amended claim: between the colon and the digits stands any run
  of white space, also none. White space is tab, line feed, form feed, carriage return
  and blank.
\<close>

definition spec_white_space :: "char set" where
  "spec_white_space = {CHR 0x09, CHR 0x0A, CHR 0x0C, CHR 0x0D, CHR 0x20}"

definition amended_problem_line :: "string \<Rightarrow> bool" where
  "amended_problem_line line =
     (\<exists>before name ws ds after.
        line = before @ name @ '':'' @ ws @ ds @ after \<and> name \<in> spec_counter_names \<and>
        set ws \<subseteq> spec_white_space \<and> ds \<noteq> [] \<and> set ds \<subseteq> spec_digits \<and> 0 < spec_value ds)"

text \<open>
  A raw text as its lines: every line followed by a line feed. A line as the amended
  claim has it delivered: without one carriage return at its end.
\<close>

definition spec_text :: "string list \<Rightarrow> string" where
  "spec_text ls = concat (map (\<lambda>l. l @ [CHR 0x0A]) ls)"

definition spec_without_cr :: "string \<Rightarrow> string" where
  "spec_without_cr l = (if \<exists>l'. l = l' @ [CHR 0x0D] then butlast l else l)"

text \<open>
  The listing of the summary: every description between two backticks, one to a line.
\<close>

fun spec_listing :: "string list \<Rightarrow> string" where
  "spec_listing [] = []"
| "spec_listing [d] = ''`'' @ d @ ''`''"
| "spec_listing (d # e # ds) = ''`'' @ d @ ''`'' @ [CHR 0x0A] @ spec_listing (e # ds)"

text \<open>
  The same occurrence in the terms of the matcher (its names, its character classes, the
  number as \<open>Atoi\<close> reads it); the proofs about the matcher go through it.
\<close>

definition pattern_occurs :: "string \<Rightarrow> bool" where
  "pattern_occurs line =
     (\<exists>before name ws ds after.
        line = before @ name @ '':'' @ ws @ ds @ after \<and> name \<in> set counter_names \<and>
        list_all is_space ws \<and> ds \<noteq> [] \<and> list_all is_digit ds \<and> 0 < decimal ds)"

text \<open>
  The specification's device key: the text before the first occurrence of the separator,
  and the whole line when the separator does not occur.
\<close>

definition spec_device_key :: "string \<Rightarrow> string \<Rightarrow> bool" where
  "spec_device_key line key =
     ((\<exists>rest. line = key @ '' - '' @ rest \<and>
         (\<forall>a b. line = a @ '' - '' @ b \<longrightarrow> length key \<le> length a))
      \<or> ((\<forall>a b. line \<noteq> a @ '' - '' @ b) \<and> key = line))"

text \<open>
  The specification counts a message in characters. A character is a code point: in
  UTF-8, every byte that is not a continuation byte (\<open>0x80\<close> to \<open>0xBF\<close>) starts one.
\<close>

definition spec_characters :: "string \<Rightarrow> nat" where
  "spec_characters s = length (filter (\<lambda>c. \<not> (128 \<le> (of_char c :: nat) \<and> (of_char c :: nat) < 192)) s)"

text \<open>
  What holds of every map the parser builds: the keys are distinct, and every entry is a
  problem line that is not empty, stored under its disk identifier.
\<close>

definition stored_ok :: "gomap \<Rightarrow> bool" where
  "stored_ok m \<longleftrightarrow> distinct (map fst m) \<and>
     (\<forall>(k, v) \<in> set m. v \<noteq> [] \<and> k = diskIdentifier v \<and> hasProblem (findAllStringSubmatch v))"

text \<open>
  Two environments for the examples: an endpoint that accepts every request and one that
  refuses every request. In both, \<open>range\<close> visits a map in the reverse of the order of
  the list.
\<close>

definition env_up :: env where
  "env_up = \<lparr>hostname = ''h'', now = (\<lambda>n. ''t''), transport_error = (\<lambda>n. None),
              pick = (\<lambda>i. rev)\<rparr>"

definition env_down :: env where
  "env_down = \<lparr>hostname = ''h'', now = (\<lambda>n. ''t''), transport_error = (\<lambda>n. Some ''timeout''),
                pick = (\<lambda>i. rev)\<rparr>"

text \<open>Two reports for the examples: two worn disks, and one healthy disk.\<close>

definition report_two :: string where
  "report_two = ''D - Wear: 1'' @ [newline] @ ''E - Wear: 2''"

definition report_healthy :: string where
  "report_healthy = ''D - Wear: 0'' @ [carriage_return, newline]"

text \<open>
  Three more: a worn disk behind a line of 65536 bytes, a worn disk written without the
  blank after the colon, and a line that has the sentinel as its key.
\<close>

definition report_long :: string where
  "report_long = ''D - Wear: 1'' @ [newline] @ replicate 65536 CHR ''a'' @ [newline] @ ''E - Wear: 2''"

definition report_no_blank :: string where
  "report_no_blank = ''D - Wear:5''"

definition report_sentinel :: string where
  "report_sentinel = ''powershell_error - Wear: 1''"

text \<open>A cycle has sent a notification when it has made a request to the endpoint.\<close>

definition notified :: "world \<Rightarrow> world \<Rightarrow> bool" where
  "notified w w' = (request_number w < request_number w')"


section \<open>Facts about the effects\<close>

declare send_attempts.simps [simp del]

lemma requests_Nil [simp]: "requests [] = []"
  by (simp add: requests_def)

lemma requests_Cons [simp]:
  "requests (e # es) = (if is_request e then e # requests es else requests es)"
  by (simp add: requests_def)

lemma requests_append [simp]: "requests (xs @ ys) = requests xs @ requests ys"
  by (simp add: requests_def)

lemma effects_emit [simp]: "effects (emit e w) = effects w @ [e]"
  by (simp add: emit_def)

lemma lastErrorState_emit [simp]: "lastErrorState (emit e w) = lastErrorState w"
  by (simp add: emit_def)

lemma request_number_emit [simp]:
  "request_number (emit e w) = (if is_request e then Suc (request_number w) else request_number w)"
  by (simp add: request_number_def)

lemma is_request_event [simp]: "is_request (request_event env full n)"
  by (simp add: request_event_def)

lemma send_once_eq:
  "send_once env full w =
     (transport_error env (request_number w), emit (request_event env full (request_number w)) w)"
  by (simp add: send_once_def request_event_def sendTelegramDocument_def sendTelegramText_def
      request_def)

lemma send_attempts_fail:
  assumes "transport_error env (request_number w) = Some err" and "i < maxRetries"
  shows "send_attempts env full i w =
     send_attempts env full (Suc i)
       (emit (Sleep (retry_delay i)) (emit (Log (LogWaiting (retry_delay i)))
          (emit (Log (LogSendFailed (Suc i) (Suc maxRetries) err))
             (emit (request_event env full (request_number w)) w))))"
  using assms by (simp add: send_attempts.simps[of env full i w] send_once_eq)

lemma send_attempts_last:
  assumes "transport_error env (request_number w) = Some err"
  shows "send_attempts env full maxRetries w =
     emit (Log (LogGaveUp (Suc maxRetries)))
       (emit (Log (LogSendFailed (Suc maxRetries) (Suc maxRetries) err))
          (emit (request_event env full (request_number w)) w))"
  using assms by (simp add: send_attempts.simps[of env full maxRetries w] send_once_eq)

lemma send_attempts_ok:
  assumes "transport_error env (request_number w) = None" and "i \<le> maxRetries"
  shows "send_attempts env full i w =
     emit (Log LogSentOK) (emit (request_event env full (request_number w)) w)"
  using assms by (simp add: send_attempts.simps[of env full i w] send_once_eq)

text \<open>
  The engine never touches the retained state; it makes between one and five requests,
  all of them the request chosen for the message, and adds nothing but effects.
\<close>

lemma send_attempts_shape:
  assumes "i \<le> maxRetries"
  shows "\<exists>n new. 1 \<le> n \<and> n \<le> maxRetries + 1 - i \<and>
           effects (send_attempts env full i w) = effects w @ new \<and>
           requests new = map (request_event env full) [request_number w ..< request_number w + n] \<and>
           lastErrorState (send_attempts env full i w) = lastErrorState w"
  using assms
proof (induction "maxRetries - i" arbitrary: i w)
  case 0
  then have i: "i = maxRetries" by simp
  show ?case
  proof (cases "transport_error env (request_number w)")
    case None
    have "1 \<le> (1::nat) \<and> 1 \<le> maxRetries + 1 - i \<and>
        effects (send_attempts env full i w)
          = effects w @ [request_event env full (request_number w), Log LogSentOK] \<and>
        requests [request_event env full (request_number w), Log LogSentOK]
          = map (request_event env full) [request_number w ..< request_number w + 1] \<and>
        lastErrorState (send_attempts env full i w) = lastErrorState w"
      using None i by (simp add: send_attempts_ok)
    then show ?thesis by blast
  next
    case (Some err)
    have "1 \<le> (1::nat) \<and> 1 \<le> maxRetries + 1 - i \<and>
        effects (send_attempts env full i w)
          = effects w @ [request_event env full (request_number w),
              Log (LogSendFailed (Suc maxRetries) (Suc maxRetries) err),
              Log (LogGaveUp (Suc maxRetries))] \<and>
        requests [request_event env full (request_number w),
              Log (LogSendFailed (Suc maxRetries) (Suc maxRetries) err),
              Log (LogGaveUp (Suc maxRetries))]
          = map (request_event env full) [request_number w ..< request_number w + 1] \<and>
        lastErrorState (send_attempts env full i w) = lastErrorState w"
      using Some i by (simp add: send_attempts_last)
    then show ?thesis by blast
  qed
next
  case (Suc k)
  then have i: "i < maxRetries" by simp
  show ?case
  proof (cases "transport_error env (request_number w)")
    case None
    have "1 \<le> (1::nat) \<and> 1 \<le> maxRetries + 1 - i \<and>
        effects (send_attempts env full i w)
          = effects w @ [request_event env full (request_number w), Log LogSentOK] \<and>
        requests [request_event env full (request_number w), Log LogSentOK]
          = map (request_event env full) [request_number w ..< request_number w + 1] \<and>
        lastErrorState (send_attempts env full i w) = lastErrorState w"
      using None i by (simp add: send_attempts_ok)
    then show ?thesis by blast
  next
    case (Some err)
    define pre where "pre = [request_event env full (request_number w),
        Log (LogSendFailed (Suc i) (Suc maxRetries) err),
        Log (LogWaiting (retry_delay i)), Sleep (retry_delay i)]"
    define w' where "w' = emit (Sleep (retry_delay i)) (emit (Log (LogWaiting (retry_delay i)))
          (emit (Log (LogSendFailed (Suc i) (Suc maxRetries) err))
             (emit (request_event env full (request_number w)) w)))"
    have step: "send_attempts env full i w = send_attempts env full (Suc i) w'"
      unfolding w'_def using Some i by (rule send_attempts_fail)
    have w': "effects w' = effects w @ pre" "request_number w' = Suc (request_number w)"
      "lastErrorState w' = lastErrorState w"
      by (simp_all add: w'_def pre_def)
    from Suc.hyps(2) i have "k = maxRetries - Suc i" "Suc i \<le> maxRetries" by simp_all
    from Suc.hyps(1)[OF this, of w'] obtain n new where n: "1 \<le> n" "n \<le> maxRetries + 1 - Suc i"
      and eff: "effects (send_attempts env full (Suc i) w') = effects w' @ new"
      and req: "requests new = map (request_event env full) [request_number w' ..< request_number w' + n]"
      and st: "lastErrorState (send_attempts env full (Suc i) w') = lastErrorState w'"
      by blast
    have "[request_number w ..< request_number w + Suc n]
        = request_number w # [Suc (request_number w) ..< Suc (request_number w) + n]"
      by (simp add: upt_rec)
    then have "requests (pre @ new)
        = map (request_event env full) [request_number w ..< request_number w + Suc n]"
      using req w'(2) by (simp add: pre_def)
    moreover have "effects (send_attempts env full i w) = effects w @ (pre @ new)"
      using step eff w'(1) by simp
    moreover have "lastErrorState (send_attempts env full i w) = lastErrorState w"
      using step st w'(3) by simp
    moreover have "1 \<le> Suc n" "Suc n \<le> maxRetries + 1 - i"
      using n i by simp_all
    ultimately show ?thesis by blast
  qed
qed

lemma sendTelegramNotification_shape:
  "\<exists>n new. 1 \<le> n \<and> n \<le> maxRetries + 1 \<and>
     effects (sendTelegramNotification env message w) = effects w @ new \<and>
     requests new = map (request_event env (fullMessage (hostname env) message))
                      [request_number w ..< request_number w + n] \<and>
     lastErrorState (sendTelegramNotification env message w) = lastErrorState w"
  using send_attempts_shape[of 0 env "fullMessage (hostname env) message" w]
  by (simp add: sendTelegramNotification_def)

lemma sendTelegramNotification_state [simp]:
  "lastErrorState (sendTelegramNotification env message w) = lastErrorState w"
  using sendTelegramNotification_shape[of env message w] by blast

lemma sendTelegramNotification_notified:
  "request_number w < request_number (sendTelegramNotification env message w)"
proof -
  obtain n new where "1 \<le> n"
    "effects (sendTelegramNotification env message w) = effects w @ new"
    "requests new = map (request_event env (fullMessage (hostname env) message))
                      [request_number w ..< request_number w + n]"
    using sendTelegramNotification_shape[of env message w] by blast
  then show ?thesis
    by (simp add: request_number_def)
qed

lemma send_attempts_all_fail:
  assumes "i \<le> maxRetries"
    and "\<forall>k \<le> maxRetries - i. transport_error env (request_number w + k) \<noteq> None"
  shows "\<exists>new. effects (send_attempts env full i w) = effects w @ new \<and>
           filter (\<lambda>e. is_request e \<or> is_sleep e) new
             = concat (map (\<lambda>j. [request_event env full (request_number w + (j - i)),
                                  Sleep (retry_delay j)]) [i ..< maxRetries])
               @ [request_event env full (request_number w + (maxRetries - i))] \<and>
           last new = Log (LogGaveUp (Suc maxRetries))"
  using assms
proof (induction "maxRetries - i" arbitrary: i w)
  case 0
  then have i: "i = maxRetries" by simp
  from "0.prems"(2) obtain err where err: "transport_error env (request_number w) = Some err"
    by force
  define new where "new = [request_event env full (request_number w),
      Log (LogSendFailed (Suc maxRetries) (Suc maxRetries) err), Log (LogGaveUp (Suc maxRetries))]"
  have "effects (send_attempts env full i w) = effects w @ new"
    using err i by (simp add: send_attempts_last new_def)
  moreover have "filter (\<lambda>e. is_request e \<or> is_sleep e) new
             = concat (map (\<lambda>j. [request_event env full (request_number w + (j - i)),
                                  Sleep (retry_delay j)]) [i ..< maxRetries])
               @ [request_event env full (request_number w + (maxRetries - i))]"
    using i by (simp add: new_def)
  moreover have "last new = Log (LogGaveUp (Suc maxRetries))"
    by (simp add: new_def)
  ultimately show ?case by blast
next
  case (Suc k)
  then have i: "i < maxRetries" by simp
  from Suc.prems(2) obtain err where err: "transport_error env (request_number w) = Some err"
    by force
  define pre where "pre = [request_event env full (request_number w),
      Log (LogSendFailed (Suc i) (Suc maxRetries) err),
      Log (LogWaiting (retry_delay i)), Sleep (retry_delay i)]"
  define w' where "w' = emit (Sleep (retry_delay i)) (emit (Log (LogWaiting (retry_delay i)))
        (emit (Log (LogSendFailed (Suc i) (Suc maxRetries) err))
           (emit (request_event env full (request_number w)) w)))"
  have step: "send_attempts env full i w = send_attempts env full (Suc i) w'"
    unfolding w'_def using err i by (rule send_attempts_fail)
  have w': "effects w' = effects w @ pre" "request_number w' = Suc (request_number w)"
    by (simp_all add: w'_def pre_def)
  have fails: "\<forall>k \<le> maxRetries - Suc i. transport_error env (request_number w' + k) \<noteq> None"
  proof (intro allI impI)
    fix j assume "j \<le> maxRetries - Suc i"
    then have "Suc j \<le> maxRetries - i" using i by simp
    with Suc.prems(2) have "transport_error env (request_number w + Suc j) \<noteq> None" by blast
    then show "transport_error env (request_number w' + j) \<noteq> None" by (simp add: w'(2))
  qed
  from Suc.hyps(2) i have "k = maxRetries - Suc i" "Suc i \<le> maxRetries" by simp_all
  from Suc.hyps(1)[OF this fails] obtain new
    where eff: "effects (send_attempts env full (Suc i) w') = effects w' @ new"
      and fil: "filter (\<lambda>e. is_request e \<or> is_sleep e) new
             = concat (map (\<lambda>j. [request_event env full (request_number w' + (j - Suc i)),
                                  Sleep (retry_delay j)]) [Suc i ..< maxRetries])
               @ [request_event env full (request_number w' + (maxRetries - Suc i))]"
      and las: "last new = Log (LogGaveUp (Suc maxRetries))"
    by blast
  have new_ne: "new \<noteq> []"
    using fil by auto
  have shift: "map (\<lambda>j. [request_event env full (request_number w' + (j - Suc i)),
                                  Sleep (retry_delay j)]) [Suc i ..< maxRetries]
      = map (\<lambda>j. [request_event env full (request_number w + (j - i)),
                                  Sleep (retry_delay j)]) [Suc i ..< maxRetries]"
  proof (rule map_cong)
    fix j assume "j \<in> set [Suc i ..< maxRetries]"
    then have "request_number w' + (j - Suc i) = request_number w + (j - i)"
      unfolding w'(2) by auto
    then show "[request_event env full (request_number w' + (j - Suc i)), Sleep (retry_delay j)]
        = [request_event env full (request_number w + (j - i)), Sleep (retry_delay j)]"
      by simp
  qed simp
  have last_ix: "request_number w' + (maxRetries - Suc i) = request_number w + (maxRetries - i)"
    using i by (simp add: w'(2))
  have "effects (send_attempts env full i w) = effects w @ (pre @ new)"
    using step eff w'(1) by simp
  moreover have "filter (\<lambda>e. is_request e \<or> is_sleep e) (pre @ new)
             = concat (map (\<lambda>j. [request_event env full (request_number w + (j - i)),
                                  Sleep (retry_delay j)]) [i ..< maxRetries])
               @ [request_event env full (request_number w + (maxRetries - i))]"
    using i fil by (simp add: upt_conv_Cons[of i maxRetries] pre_def shift last_ix)
  moreover have "last (pre @ new) = Log (LogGaveUp (Suc maxRetries))"
    using new_ne las by simp
  ultimately show ?case by blast
qed

section \<open>Small reports and messages, evaluated by rewriting\<close>

lemmas parser_eval = parseProblems_def scanner_lines_def newline_def dropCR_def carriage_return_def
  maxScanTokenSize_def scan_line_def findAllStringSubmatch_def match_here_def counter_names_def
  match_name_def is_space_def is_digit_def Let_def atoi_def decimal_def digit_value_def maxInt_def
  diskIdentifier_def

lemma parse_one_line:
  "parseProblems ''D - Wear: 1'' = [(''D'', ''D - Wear: 1'')]"
  by (simp add: parser_eval)

lemma parse_two_lines:
  "parseProblems report_two = [(''D'', ''D - Wear: 1''), (''E'', ''E - Wear: 2'')]"
  by (simp add: report_two_def parser_eval)

lemma parse_healthy:
  "parseProblems report_healthy = []"
  by (simp add: report_healthy_def parser_eval)

lemma spec_characters_append [simp]:
  "spec_characters (xs @ ys) = spec_characters xs + spec_characters ys"
  by (simp add: spec_characters_def)

lemma spec_characters_replicate_a [simp]:
  "spec_characters (replicate n CHR ''a'') = n"
  by (simp add: spec_characters_def)

section \<open>Facts about the map\<close>

lemma mset_go_range [simp]: "mset (go_range p m) = mset m"
  by (simp add: go_range_def)

lemma set_go_range [simp]: "set (go_range p m) = set m"
  using mset_go_range[of p m] by (metis set_mset_mset)

lemma length_go_range [simp]: "length (go_range p m) = length m"
  using mset_go_range[of p m] by (metis size_mset)

lemma map_of_map_assign [simp]: "map_of (map_assign m k v) = (map_of m)(k \<mapsto> v)"
  by (induction m) (auto simp: fun_eq_iff)

lemma keys_map_assign: "fst ` set (map_assign m k v) = insert k (fst ` set m)"
proof -
  have "fst ` set (map_assign m k v) = dom (map_of (map_assign m k v))"
    by (simp only: dom_map_of_conv_image_fst)
  also have "\<dots> = insert k (dom (map_of m))"
    by simp
  also have "\<dots> = insert k (fst ` set m)"
    by (simp only: dom_map_of_conv_image_fst)
  finally show ?thesis .
qed

lemma card_keys: "distinct (map fst a) \<Longrightarrow> card (fst ` set a) = length a"
  using distinct_card[of "map fst a"] by simp

lemma distinct_map_assign:
  "distinct (map fst m) \<Longrightarrow> distinct (map fst (map_assign m k v))"
proof (induction m)
  case Nil
  then show ?case by simp
next
  case (Cons e m)
  obtain k' v' where e: "e = (k', v')" by (cases e)
  with Cons show ?case
    using keys_map_assign[of m k v] by auto
qed

lemma set_map_assign: "set (map_assign m k v) \<subseteq> insert (k, v) (set m)"
  by (induction m) (auto split: if_splits)

lemma map_exists_iff: "map_exists m k \<longleftrightarrow> map_of m k \<noteq> None"
  by (simp add: map_exists_def split: option.splits)

lemma map_exists_keys: "map_exists m k \<longleftrightarrow> k \<in> fst ` set m"
  by (simp add: map_exists_iff map_of_eq_None_iff)

lemma map_index_differs:
  "p \<noteq> [] \<Longrightarrow> map_index m d \<noteq> p \<longleftrightarrow> map_of m d \<noteq> Some p"
  by (simp add: map_index_def split: option.splits)

text \<open>\<open>reflect.DeepEqual\<close> on maps is equality of contents.\<close>

lemma deepEqual_iff:
  assumes "distinct (map fst a)" and "distinct (map fst b)"
  shows "deepEqual a b \<longleftrightarrow> map_of a = map_of b"
proof
  assume eq: "deepEqual a b"
  then have len: "length a = length b"
    and sub: "\<And>k v. (k, v) \<in> set a \<Longrightarrow> map_of b k = Some v"
    by (auto simp: deepEqual_def list_all_iff)
  have "dom (map_of a) \<subseteq> dom (map_of b)"
  proof
    fix k assume "k \<in> dom (map_of a)"
    then obtain v where "map_of a k = Some v" by blast
    then have "(k, v) \<in> set a" by (rule map_of_SomeD)
    then show "k \<in> dom (map_of b)" using sub by blast
  qed
  moreover have "card (dom (map_of a)) = card (dom (map_of b))"
    using assms len by (simp add: dom_map_of_conv_image_fst card_keys)
  ultimately have dom: "dom (map_of a) = dom (map_of b)"
    by (simp add: card_subset_eq finite_dom_map_of)
  show "map_of a = map_of b"
  proof
    fix k
    show "map_of a k = map_of b k"
    proof (cases "map_of a k")
      case None
      then show ?thesis using dom by (metis domIff)
    next
      case (Some v)
      then have "(k, v) \<in> set a" by (rule map_of_SomeD)
      then show ?thesis using sub Some by simp
    qed
  qed
next
  assume eq: "map_of a = map_of b"
  have "fst ` set a = fst ` set b"
    using eq by (metis dom_map_of_conv_image_fst)
  then have "length a = length b"
    using card_keys[OF assms(1)] card_keys[OF assms(2)] by simp
  moreover have "list_all (\<lambda>(k, v). map_of b k = Some v) a"
    using assms(1) by (auto simp: list_all_iff eq[symmetric])
  ultimately show "deepEqual a b" by (simp add: deepEqual_def)
qed

lemma deepEqual_Nil [simp]: "deepEqual [] b \<longleftrightarrow> b = []"
  by (auto simp: deepEqual_def)

section \<open>Facts about the two loops of the message\<close>

lemma detected_loop_eq:
  "detected_loop last_state entries builder =
     builder @ concat (map (\<lambda>(disk, problem). detected_block problem)
       (filter (\<lambda>(disk, problem). map_index last_state disk \<noteq> problem) entries))"
  by (induction entries arbitrary: builder) auto

lemma resolved_loop_eq:
  "resolved_loop currentProblems entries builder =
     builder @ concat (map resolved_block
       (filter (\<lambda>disk. \<not> map_exists currentProblems disk) (map fst entries)))"
  by (induction entries arbitrary: builder) auto

section \<open>Facts about the entries the parser stores\<close>

lemma scan_line_ok: "stored_ok m \<Longrightarrow> stored_ok (scan_line m line)"
proof -
  assume ok: "stored_ok m"
  show ?thesis
  proof (cases "hasProblem (findAllStringSubmatch line)")
    case False
    with ok show ?thesis by (simp add: scan_line_def)
  next
    case True
    then have "line \<noteq> []"
      by (auto simp: findAllStringSubmatch_def)
    with True ok show ?thesis
      using set_map_assign[of m "diskIdentifier line" line]
      by (auto simp: scan_line_def stored_ok_def distinct_map_assign)
  qed
qed

lemma foldl_scan_line_ok: "stored_ok m \<Longrightarrow> stored_ok (foldl scan_line m ls)"
  by (induction ls arbitrary: m) (simp_all add: scan_line_ok)

lemma parseProblems_ok: "stored_ok (parseProblems raw)"
proof -
  have "stored_ok []" by (simp add: stored_ok_def)
  then show ?thesis unfolding parseProblems_def by (rule foldl_scan_line_ok)
qed

lemma parseProblems_distinct: "distinct (map fst (parseProblems raw))"
  using parseProblems_ok[of raw] by (simp add: stored_ok_def)

lemma parseProblems_nonempty: "(k, v) \<in> set (parseProblems raw) \<Longrightarrow> v \<noteq> []"
  using parseProblems_ok[of raw] by (auto simp: stored_ok_def)

lemma detected_filter_parse:
  "filter (\<lambda>(disk, problem). map_index previous disk \<noteq> problem) (go_range p (parseProblems raw))
     = spec_changedOrNew previous (go_range p (parseProblems raw))"
  unfolding spec_changedOrNew_def
proof (rule filter_cong)
  fix e assume e: "e \<in> set (go_range p (parseProblems raw))"
  obtain disk problem where dp: "e = (disk, problem)" by (cases e)
  with e have "problem \<noteq> []"
    using parseProblems_nonempty[of disk problem raw] by simp
  then show "(case e of (disk, problem) \<Rightarrow> map_index previous disk \<noteq> problem)
      = (case e of (device, description) \<Rightarrow> map_of previous device \<noteq> Some description)"
    by (simp add: dp map_index_differs)
qed simp

lemma resolved_filter:
  "filter (\<lambda>disk. \<not> map_exists current disk) (map fst entries) = spec_resolved entries current"
  by (simp add: spec_resolved_def map_exists_iff)

lemma diff_message_parse:
  "diff_message env previous (parseProblems raw)
     = diff_header
       @ concat (map (\<lambda>(device, description). detected_block description)
           (spec_changedOrNew previous (go_range (pick env 0) (parseProblems raw))))
       @ concat (map resolved_block
           (spec_resolved (go_range (pick env 1) previous) (parseProblems raw)))"
  by (simp add: diff_message_def detected_loop_eq resolved_loop_eq detected_filter_parse
      resolved_filter)

section \<open>Facts about the check cycle\<close>

lemma check_unchanged:
  assumes "deepEqual (parseProblems raw) (lastErrorState w)"
  shows "checkDiskStatusAndNotify env (Inr raw) w
     = emit (Log LogStatusUnchanged) (emit (Log (LogCheckResult raw)) w)"
  using assms by (simp add: checkDiskStatusAndNotify_def)

lemma check_changed:
  assumes "\<not> deepEqual (parseProblems raw) (lastErrorState w)"
  shows "checkDiskStatusAndNotify env (Inr raw) w
     = (sendTelegramNotification env (diff_message env (lastErrorState w) (parseProblems raw))
          (emit (Log LogStatusChanged) (emit (Log (LogCheckResult raw)) w)))
        \<lparr>lastErrorState := parseProblems raw\<rparr>"
  using assms by (simp add: checkDiskStatusAndNotify_def Let_def)

lemma check_failure_new:
  assumes "map_index (lastErrorState w) sentinel \<noteq> acquisition_message err"
  shows "checkDiskStatusAndNotify env (Inl err) w
     = (sendTelegramNotification env (emoji_warning @ '' '' @ acquisition_message err)
          (emit (Log (LogPowerShellError (acquisition_message err))) w))
        \<lparr>lastErrorState := [(sentinel, acquisition_message err)]\<rparr>"
  using assms by (simp add: checkDiskStatusAndNotify_def Let_def)

lemma check_failure_same:
  assumes "map_index (lastErrorState w) sentinel = acquisition_message err"
  shows "checkDiskStatusAndNotify env (Inl err) w = w"
  using assms by (simp add: checkDiskStatusAndNotify_def Let_def)

lemma request_number_state_update [simp]:
  "request_number (w\<lparr>lastErrorState := m\<rparr>) = request_number w"
  by (simp add: request_number_def)

lemma acquisition_message_inject [simp]:
  "acquisition_message a = acquisition_message b \<longleftrightarrow> a = b"
  by (simp add: acquisition_message_def)

lemma failure_notified:
  "notified w (checkDiskStatusAndNotify env (Inl err) w)
     \<longleftrightarrow> map_index (lastErrorState w) sentinel \<noteq> acquisition_message err"
proof (cases "map_index (lastErrorState w) sentinel = acquisition_message err")
  case True
  then show ?thesis by (simp add: check_failure_same notified_def)
next
  case False
  then show ?thesis
    using sendTelegramNotification_notified[of
        "emit (Log (LogPowerShellError (acquisition_message err))) w" env
        "emoji_warning @ '' '' @ acquisition_message err"]
    by (simp add: check_failure_new notified_def)
qed

lemma failure_remembered:
  "map_index (lastErrorState (checkDiskStatusAndNotify env (Inl err) w)) sentinel
     = acquisition_message err"
proof (cases "map_index (lastErrorState w) sentinel = acquisition_message err")
  case True
  then show ?thesis by (simp add: check_failure_same)
next
  case False
  then show ?thesis by (simp add: check_failure_new map_index_def)
qed

lemma go_range_single [simp]: "go_range p [x] = [x]"
  by (simp add: go_range_def)

lemma check_empty_report:
  assumes "parseProblems raw = []"
  shows "lastErrorState (checkDiskStatusAndNotify env (Inr raw) w) = []"
proof (cases "deepEqual (parseProblems raw) (lastErrorState w)")
  case True
  then show ?thesis using assms by (simp add: check_unchanged)
next
  case False
  then show ?thesis using assms by (simp add: check_changed)
qed

text \<open>The keys of the retained state stay distinct from one cycle to the next.\<close>

lemma retained_keys_distinct:
  assumes "distinct (map fst (lastErrorState w))"
  shows "distinct (map fst (lastErrorState (checkDiskStatusAndNotify env output w)))"
proof (cases "output")
  case (Inl err)
  show ?thesis
  proof (cases "map_index (lastErrorState w) sentinel = acquisition_message err")
    case True
    with Inl assms show ?thesis by (simp add: check_failure_same)
  next
    case False
    with Inl show ?thesis by (simp add: check_failure_new)
  qed
next
  case (Inr raw)
  show ?thesis
  proof (cases "deepEqual (parseProblems raw) (lastErrorState w)")
    case True
    with Inr assms show ?thesis by (simp add: check_unchanged)
  next
    case False
    with Inr show ?thesis by (simp add: check_changed parseProblems_distinct)
  qed
qed

lemma run_test_eq:
  "run_test env output w
     = emit (Print ''Test complete. See log for details.'')
         (sendTelegramNotification env (summaryMessage env (lastErrorState (test_cycle env output w)))
            (emit (Log LogSendingSummary) (test_cycle env output w)))"
  by (simp add: run_test_def Let_def)

lemma sendTelegramNotification_first_ok:
  assumes "transport_error env (request_number w) = None"
  shows "sendTelegramNotification env message w
     = emit (Log LogSentOK)
         (emit (request_event env (fullMessage (hostname env) message) (request_number w)) w)"
  using assms by (simp add: sendTelegramNotification_def send_attempts_ok)

lemma short_message:
  "length message \<le> 4000 \<Longrightarrow> request_event env_up (fullMessage ''h'' message) n
     = SendText (fullMessage ''h'' message) False"
  by (simp add: request_event_def fullMessage_def emoji_host_def telegramMsgLimit_def)

lemmas message_eval = diff_header_def detected_block_def resolved_block_def emoji_red_def
  emoji_green_def no_problems_message_def emoji_check_def emoji_info_def emoji_warning_def
  acquisition_message_def sentinel_def

section \<open>Facts about the regular expression\<close>

lemma has_prefix_iff: "has_prefix p s \<longleftrightarrow> (\<exists>r. s = p @ r)"
  by (induction p s rule: has_prefix.induct) auto

lemma has_prefix_append [simp]: "has_prefix p (p @ r)"
  by (simp add: has_prefix_iff)

lemma list_all_takeWhile [simp]: "list_all P (takeWhile P xs)"
  by (induction xs) auto

lemma takeWhile_append_stop:
  "list_all P xs \<Longrightarrow> ys = [] \<or> \<not> P (hd ys) \<Longrightarrow> takeWhile P (xs @ ys) = xs"
  by (induction xs) (auto simp: takeWhile_eq_Nil_iff)

lemma dropWhile_append_stop:
  "list_all P xs \<Longrightarrow> ys = [] \<or> \<not> P (hd ys) \<Longrightarrow> dropWhile P (xs @ ys) = ys"
  by (induction xs) (auto simp: dropWhile_eq_self_iff)

lemma takeWhile_append_all:
  "list_all P xs \<Longrightarrow> takeWhile P (xs @ ys) = xs @ takeWhile P ys"
  by (induction xs) auto

lemma dropWhile_append_all:
  "list_all P xs \<Longrightarrow> dropWhile P (xs @ ys) = dropWhile P ys"
  by (induction xs) auto

lemma digit_not_space: "is_digit c \<Longrightarrow> \<not> is_space c"
  by (auto simp: is_digit_def is_space_def)

lemma match_name_SomeD:
  assumes "match_name n s = Some ((whole, n', ds), rest)"
  shows "n' = n" and "ds \<noteq> []" and "list_all is_digit ds"
    and "\<exists>ws. list_all is_space ws \<and> whole = n @ '':'' @ ws @ ds" and "s = whole @ rest"
proof -
  from assms obtain r where s: "s = n @ r"
    by (auto simp: match_name_def has_prefix_iff split: if_splits)
  with assms obtain s2 where r: "r = CHR '':'' # s2"
    by (auto simp: match_name_def split: list.splits if_splits)
  define ws where "ws = takeWhile is_space s2"
  define s3 where "s3 = dropWhile is_space s2"
  from assms s r have res: "ds = takeWhile is_digit s3" "whole = n @ '':'' @ ws @ ds"
    "rest = dropWhile is_digit s3" "n' = n" "ds \<noteq> []"
    by (auto simp: match_name_def Let_def ws_def s3_def split: if_splits)
  show "n' = n" "ds \<noteq> []" by (rule res)+
  show "list_all is_digit ds" by (simp add: res(1))
  have "list_all is_space ws" by (simp add: ws_def)
  with res(2) show "\<exists>ws. list_all is_space ws \<and> whole = n @ '':'' @ ws @ ds" by blast
  have "s2 = ws @ s3" by (simp add: ws_def s3_def)
  moreover have "s3 = ds @ rest" by (simp add: res)
  ultimately show "s = whole @ rest" by (simp add: s r res(2))
qed

lemma match_alternatives_SomeD:
  "match_alternatives ns s = Some ((whole, n, ds), rest)
    \<Longrightarrow> n \<in> set ns \<and> match_name n s = Some ((whole, n, ds), rest)"
proof (induction ns)
  case Nil
  then show ?case by simp
next
  case (Cons a ns)
  show ?case
  proof (cases "match_name a s")
    case None
    with Cons show ?thesis by simp
  next
    case (Some x)
    with Cons.prems have x: "match_name a s = Some ((whole, n, ds), rest)" by simp
    then have "n = a" by (rule match_name_SomeD(1))
    with x show ?thesis by simp
  qed
qed

lemma match_here_SomeD:
  assumes "match_here s = Some ((whole, n, ds), rest)"
  shows "n \<in> set counter_names" and "ds \<noteq> []" and "list_all is_digit ds"
    and "\<exists>ws. list_all is_space ws \<and> whole = n @ '':'' @ ws @ ds" and "s = whole @ rest"
  using match_alternatives_SomeD[OF assms[unfolded match_here_def]]
    match_name_SomeD[of n s whole n ds rest] by auto

lemma match_here_Nil [simp]: "match_here [] = None"
  by (simp add: match_here_def counter_names_def match_name_def)

text \<open>The number and the value \<open>Atoi\<close> returns are positive together.\<close>

lemma atoi_positive: "0 < atoi ds \<longleftrightarrow> 0 < decimal ds"
  by (simp add: atoi_def maxInt_def)

lemma foldl_decimal_positive:
  "0 < a \<Longrightarrow> 0 < foldl (\<lambda>n c. 10 * n + digit_value c) a xs"
  by (induction xs arbitrary: a) auto

lemma decimal_append_positive: "0 < decimal ds \<Longrightarrow> 0 < decimal (ds @ es)"
  by (simp add: decimal_def foldl_decimal_positive)

text \<open>Every match that counts is an occurrence of the specification's pattern.\<close>

lemma find_from_sound:
  "hasProblem (find_from k s) \<Longrightarrow>
     \<exists>before whole n ds rest. s = before @ whole @ rest \<and>
       match_here (whole @ rest) = Some ((whole, n, ds), rest) \<and> 0 < atoi ds"
proof (induction k s rule: find_from.induct)
  case (1 skip)
  then show ?case by simp
next
  case (2 skip c cs)
  then obtain before whole n ds rest where "cs = before @ whole @ rest"
    "match_here (whole @ rest) = Some ((whole, n, ds), rest)" "0 < atoi ds"
    by auto
  then have "c # cs = (c # before) @ whole @ rest \<and>
       match_here (whole @ rest) = Some ((whole, n, ds), rest) \<and> 0 < atoi ds"
    by simp
  then show ?case by blast
next
  case (3 c cs)
  show ?case
  proof (cases "match_here (c # cs)")
    case None
    with 3 obtain before whole n ds rest where "cs = before @ whole @ rest"
      "match_here (whole @ rest) = Some ((whole, n, ds), rest)" "0 < atoi ds"
      by auto
    then have "c # cs = (c # before) @ whole @ rest \<and>
         match_here (whole @ rest) = Some ((whole, n, ds), rest) \<and> 0 < atoi ds"
      by simp
    then show ?thesis by blast
  next
    case (Some x)
    obtain w n d r where x: "x = ((w, n, d), r)" by (cases x) auto
    show ?thesis
    proof (cases "0 < atoi d")
      case True
      have "c # cs = w @ r" using Some x by (auto dest: match_here_SomeD(5))
      with True Some x have "c # cs = [] @ w @ r \<and>
         match_here (w @ r) = Some ((w, n, d), r) \<and> 0 < atoi d"
        by simp
      then show ?thesis by blast
    next
      case False
      with "3.prems" Some x have "hasProblem (find_from (length w - 1) cs)" by simp
      with "3.IH"(2)[OF Some x[symmetric] refl refl] obtain before whole n ds rest
        where "cs = before @ whole @ rest"
          "match_here (whole @ rest) = Some ((whole, n, ds), rest)" "0 < atoi ds"
        by auto
      then have "c # cs = (c # before) @ whole @ rest \<and>
           match_here (whole @ rest) = Some ((whole, n, ds), rest) \<and> 0 < atoi ds"
        by simp
      then show ?thesis by blast
    qed
  qed
qed

lemma hasProblem_sound:
  assumes "hasProblem (findAllStringSubmatch line)"
  shows "pattern_occurs line"
proof -
  from find_from_sound[OF assms[unfolded findAllStringSubmatch_def]]
  obtain before whole n ds rest where line: "line = before @ whole @ rest"
    and m: "match_here (whole @ rest) = Some ((whole, n, ds), rest)" and pos: "0 < atoi ds"
    by blast
  from match_here_SomeD[OF m] obtain ws where "n \<in> set counter_names" "ds \<noteq> []"
    "list_all is_digit ds" "list_all is_space ws" "whole = n @ '':'' @ ws @ ds"
    by blast
  with line pos have "line = before @ n @ '':'' @ ws @ ds @ rest \<and> n \<in> set counter_names \<and>
        list_all is_space ws \<and> ds \<noteq> [] \<and> list_all is_digit ds \<and> 0 < decimal ds"
    by (simp add: atoi_positive)
  then show ?thesis unfolding pattern_occurs_def by blast
qed

text \<open>What the proof needs to know of the four names.\<close>

lemma names_no_colon: "n \<in> set counter_names \<Longrightarrow> CHR '':'' \<notin> set n"
  by (auto simp: counter_names_def)

lemma names_head:
  "n \<in> set counter_names \<Longrightarrow>
     n \<noteq> [] \<and> hd n \<noteq> CHR '':'' \<and> \<not> is_space (hd n) \<and> \<not> is_digit (hd n)"
  by (auto simp: counter_names_def is_space_def is_digit_def)

lemma names_no_proper_suffix:
  assumes "n \<in> set counter_names" and "n0 \<in> set counter_names" and "n = b @ n0"
  shows "b = []"
proof -
  from assms(3) have "rev n = rev n0 @ rev b" by simp
  with assms(1,2) show ?thesis
    by (auto simp: counter_names_def)
qed

lemma first_occurrence_unique:
  assumes "x \<notin> set xs" and "x \<notin> set xs'" and "xs @ x # ys = xs' @ x # ys'"
  shows "xs = xs'"
proof -
  have "takeWhile (\<lambda>c. c \<noteq> x) (xs @ x # ys) = xs"
    using assms(1) by (auto simp: takeWhile_tail takeWhile_eq_all_conv)
  moreover have "takeWhile (\<lambda>c. c \<noteq> x) (xs' @ x # ys') = xs'"
    using assms(2) by (auto simp: takeWhile_tail takeWhile_eq_all_conv)
  ultimately show ?thesis using assms(3) by simp
qed

lemma match_name_other:
  "n \<in> set counter_names \<Longrightarrow> n0 \<in> set counter_names \<Longrightarrow> n0 \<noteq> n
     \<Longrightarrow> match_name n0 (n @ CHR '':'' # r) = None"
  by (auto simp: counter_names_def match_name_def)

lemma match_name_complete:
  assumes "list_all is_space ws" and "ds \<noteq> []" and "list_all is_digit ds"
  shows "match_name n (n @ CHR '':'' # ws @ ds @ after)
     = Some ((n @ '':'' @ ws @ ds @ takeWhile is_digit after, n, ds @ takeWhile is_digit after),
             dropWhile is_digit after)"
proof -
  have stop: "ds @ after = [] \<or> \<not> is_space (hd (ds @ after))"
    using assms(2,3) by (cases ds) (auto simp: digit_not_space)
  have ws: "takeWhile is_space (ws @ ds @ after) = ws"
    "dropWhile is_space (ws @ ds @ after) = ds @ after"
    using assms(1) stop by (simp_all add: takeWhile_append_stop dropWhile_append_stop)
  have ds: "takeWhile is_digit (ds @ after) = ds @ takeWhile is_digit after"
    "dropWhile is_digit (ds @ after) = dropWhile is_digit after"
    using assms(3) by (simp_all add: takeWhile_append_all dropWhile_append_all)
  show ?thesis
    using assms(2) by (simp add: match_name_def ws ds Let_def)
qed

lemma match_alternatives_complete:
  "n \<in> set ns \<Longrightarrow> (\<And>n0. n0 \<in> set ns \<Longrightarrow> n0 \<noteq> n \<Longrightarrow> match_name n0 s = None)
     \<Longrightarrow> match_name n s = Some r \<Longrightarrow> match_alternatives ns s = Some r"
proof (induction ns)
  case Nil
  then show ?case by simp
next
  case (Cons a ns)
  show ?case
  proof (cases "a = n")
    case True
    with Cons.prems(3) show ?thesis by simp
  next
    case False
    then have "match_name a s = None" using Cons.prems(2) by simp
    moreover have "n \<in> set ns" using Cons.prems(1) False by simp
    ultimately show ?thesis using Cons by simp
  qed
qed

lemma match_here_complete:
  assumes "n \<in> set counter_names" and "list_all is_space ws" and "ds \<noteq> []"
    and "list_all is_digit ds"
  shows "match_here (n @ CHR '':'' # ws @ ds @ after)
     = Some ((n @ '':'' @ ws @ ds @ takeWhile is_digit after, n, ds @ takeWhile is_digit after),
             dropWhile is_digit after)"
  unfolding match_here_def
  using assms(1) match_name_other[OF assms(1)] match_name_complete[OF assms(2,3,4)]
  by (rule match_alternatives_complete)

text \<open>No match begins inside another: a match that starts earlier ends before the next.\<close>

lemma no_overlap:
  assumes m: "match_here (before @ n0 @ CHR '':'' # rest0) = Some ((w, n, d), r)"
    and n0: "n0 \<in> set counter_names" and before: "before \<noteq> []"
  shows "length w \<le> length before"
proof (rule ccontr)
  assume "\<not> length w \<le> length before"
  then have long: "length before < length w" by simp
  from match_here_SomeD[OF m] obtain ws where n: "n \<in> set counter_names"
    and w: "w = n @ '':'' @ ws @ d" and ws: "list_all is_space ws" and d: "list_all is_digit d"
    and eq: "before @ n0 @ CHR '':'' # rest0 = w @ r"
    by blast
  define t where "t = drop (length before) w"
  have wt: "w = before @ t"
    using eq long unfolding t_def
    by (metis append_eq_conv_conj append_take_drop_id less_imp_le_nat take_append
        diff_is_0_eq take0 append_Nil2)
  have t_ne: "t \<noteq> []" using long by (simp add: t_def)
  have s0: "n0 @ CHR '':'' # rest0 = t @ r"
    using eq wt by simp
  have hd_t: "hd t = hd n0"
    using s0 t_ne names_head[OF n0] by (metis hd_append2)
  show False
  proof (cases "length before < length n")
    case True
    define y where "y = drop (length before) n"
    have ny: "n = before @ y"
      using wt w True unfolding y_def
      by (metis append_eq_conv_conj append_take_drop_id less_imp_le_nat take_append
          diff_is_0_eq take0 append_Nil2)
    have "t = y @ CHR '':'' # ws @ d"
      using wt w ny by simp
    then have "y @ CHR '':'' # (ws @ d @ r) = n0 @ CHR '':'' # rest0"
      using s0 by simp
    moreover have "CHR '':'' \<notin> set y"
      using names_no_colon[OF n] ny by auto
    ultimately have "y = n0"
      using names_no_colon[OF n0] first_occurrence_unique[of "CHR '':''" y n0] by blast
    with ny have "before = []"
      using names_no_proper_suffix[OF n n0] by blast
    with before show False by simp
  next
    case False
    then have "t = drop (length before - length n) (CHR '':'' # ws @ d)"
      by (simp add: t_def w)
    then have "set t \<subseteq> set (CHR '':'' # ws @ d)"
      by (metis set_drop_subset)
    with t_ne have "hd t \<in> set (CHR '':'' # ws @ d)"
      by (meson hd_in_set subsetD)
    then have "hd t = CHR '':'' \<or> is_space (hd t) \<or> is_digit (hd t)"
      using ws d by (auto simp: list_all_iff)
    with hd_t names_head[OF n0] show False by auto
  qed
qed

lemma find_from_complete:
  assumes n0: "n0 \<in> set counter_names" and ws: "list_all is_space ws" and ds: "ds \<noteq> []"
    and digits: "list_all is_digit ds" and pos: "0 < decimal ds"
  shows "k \<le> length before
     \<Longrightarrow> hasProblem (find_from k (before @ n0 @ CHR '':'' # ws @ ds @ after))"
proof (induction before arbitrary: k)
  case Nil
  obtain c cs where c: "n0 @ CHR '':'' # ws @ ds @ after = c # cs"
    using names_head[OF n0] by (cases n0) auto
  have "match_here (c # cs)
     = Some ((n0 @ '':'' @ ws @ ds @ takeWhile is_digit after, n0, ds @ takeWhile is_digit after),
             dropWhile is_digit after)"
    unfolding c[symmetric] using n0 ws ds digits by (rule match_here_complete)
  moreover have "0 < atoi (ds @ takeWhile is_digit after)"
    using pos by (simp add: atoi_positive decimal_append_positive)
  ultimately show ?case
    using Nil by (simp add: c)
next
  case (Cons b bs)
  show ?case
  proof (cases k)
    case (Suc k')
    with Cons.prems have "k' \<le> length bs" by simp
    then show ?thesis using Cons.IH Suc by simp
  next
    case 0
    show ?thesis
    proof (cases "match_here (b # bs @ n0 @ CHR '':'' # ws @ ds @ after)")
      case None
      then show ?thesis using Cons.IH[of 0] 0 by simp
    next
      case (Some x)
      obtain w n d r where x: "x = ((w, n, d), r)" by (cases x) auto
      have "length w \<le> length (b # bs)"
        using no_overlap[of "b # bs" n0 "ws @ ds @ after" w n d r] Some x n0 by simp
      then have "length w - 1 \<le> length bs" by simp
      then have "hasProblem (find_from (length w - 1) (bs @ n0 @ CHR '':'' # ws @ ds @ after))"
        by (rule Cons.IH)
      then show ?thesis using Some x 0 by simp
    qed
  qed
qed

lemma hasProblem_complete:
  assumes "pattern_occurs line"
  shows "hasProblem (findAllStringSubmatch line)"
proof -
  from assms obtain before name ws ds after where
    "line = before @ name @ '':'' @ ws @ ds @ after" "name \<in> set counter_names"
    "list_all is_space ws" "ds \<noteq> []" "list_all is_digit ds" "0 < decimal ds"
    unfolding pattern_occurs_def by blast
  then show ?thesis
    using find_from_complete[of name ws ds 0 before after]
    by (simp add: findAllStringSubmatch_def)
qed

lemma hasProblem_iff: "hasProblem (findAllStringSubmatch line) \<longleftrightarrow> pattern_occurs line"
  using hasProblem_sound hasProblem_complete by blast

section \<open>Facts about the device key and the loop over the lines\<close>

lemma split_first_spec:
  assumes "sep \<noteq> []"
  shows "(\<exists>rest. s = split_first sep s @ sep @ rest \<and>
            (\<forall>a b. s = a @ sep @ b \<longrightarrow> length (split_first sep s) \<le> length a))
         \<or> ((\<forall>a b. s \<noteq> a @ sep @ b) \<and> split_first sep s = s)"
proof (induction s)
  case Nil
  then show ?case using assms by simp
next
  case (Cons c cs)
  show ?case
  proof (cases "has_prefix sep (c # cs)")
    case True
    then obtain rest where "c # cs = sep @ rest" by (auto simp: has_prefix_iff)
    moreover have e: "split_first sep (c # cs) = []" using True by simp
    ultimately have "c # cs = split_first sep (c # cs) @ sep @ rest"
      by simp
    moreover have "\<forall>a b. c # cs = a @ sep @ b \<longrightarrow> length (split_first sep (c # cs)) \<le> length a"
      unfolding e by simp
    ultimately show ?thesis by blast
  next
    case False
    then have no_start: "\<And>b. c # cs \<noteq> sep @ b" by (auto simp: has_prefix_iff)
    have sf: "split_first sep (c # cs) = c # split_first sep cs" using False by simp
    from Cons.IH show ?thesis
    proof
      assume "\<exists>rest. cs = split_first sep cs @ sep @ rest \<and>
            (\<forall>a b. cs = a @ sep @ b \<longrightarrow> length (split_first sep cs) \<le> length a)"
      then obtain rest where cs: "cs = split_first sep cs @ sep @ rest"
        and least: "\<And>a b. cs = a @ sep @ b \<Longrightarrow> length (split_first sep cs) \<le> length a"
        by blast
      have "c # cs = split_first sep (c # cs) @ sep @ rest"
        using cs sf by simp
      moreover have "\<forall>a b. c # cs = a @ sep @ b \<longrightarrow> length (split_first sep (c # cs)) \<le> length a"
      proof (intro allI impI)
        fix a b assume ab: "c # cs = a @ sep @ b"
        show "length (split_first sep (c # cs)) \<le> length a"
        proof (cases a)
          case Nil
          with ab no_start show ?thesis by simp
        next
          case (Cons c' a')
          with ab have "cs = a' @ sep @ b" by simp
          then have "length (split_first sep cs) \<le> length a'" by (rule least)
          then show ?thesis by (simp add: sf Cons)
        qed
      qed
      ultimately show ?thesis by blast
    next
      assume none: "(\<forall>a b. cs \<noteq> a @ sep @ b) \<and> split_first sep cs = cs"
      have "\<forall>a b. c # cs \<noteq> a @ sep @ b"
      proof (intro allI notI)
        fix a b assume ab: "c # cs = a @ sep @ b"
        show False
        proof (cases a)
          case Nil
          with ab no_start show ?thesis by simp
        next
          case (Cons c' a')
          with ab have "cs = a' @ sep @ b" by simp
          with none show ?thesis by blast
        qed
      qed
      moreover have "split_first sep (c # cs) = c # cs" using none sf by simp
      ultimately show ?thesis by blast
    qed
  qed
qed

lemma spec_device_key_diskIdentifier: "spec_device_key line (diskIdentifier line)"
  using split_first_spec[of "'' - ''" line] by (simp add: spec_device_key_def diskIdentifier_def)

lemma spec_device_key_unique:
  assumes "spec_device_key line k" and "spec_device_key line k'"
  shows "k = k'"
proof -
  consider (both) rest rest' where "line = k @ '' - '' @ rest" "line = k' @ '' - '' @ rest'"
      "length k \<le> length k'" "length k' \<le> length k"
    | (none) "k = line" "k' = line"
    using assms unfolding spec_device_key_def by metis
  then show ?thesis
  proof cases
    case both
    then have "length k = length k'" by simp
    with both(1,2) show ?thesis by (metis append_eq_append_conv)
  next
    case none
    then show ?thesis by simp
  qed
qed

lemma spec_device_key_iff: "spec_device_key line k \<longleftrightarrow> k = diskIdentifier line"
  using spec_device_key_unique spec_device_key_diskIdentifier by blast

lemma scan_line_spec:
  "scan_line m line
     = (if pattern_occurs line then map_assign m (diskIdentifier line) line else m)"
  by (simp add: scan_line_def hasProblem_iff)

lemma foldl_scan_line_last:
  "map_of (foldl scan_line [] ls) k = Some l \<longleftrightarrow>
     (\<exists>ls1 ls2. ls = ls1 @ l # ls2 \<and> pattern_occurs l \<and> k = diskIdentifier l \<and>
        (\<forall>l' \<in> set ls2. pattern_occurs l' \<longrightarrow> k \<noteq> diskIdentifier l'))"
    (is "?L ls \<longleftrightarrow> ?R ls")
proof (induction ls rule: rev_induct)
  case Nil
  then show ?case by simp
next
  case (snoc x ls)
  define m where "m = foldl scan_line [] ls"
  show ?case
  proof (cases "pattern_occurs x \<and> k = diskIdentifier x")
    case True
    then have L: "?L (ls @ [x]) \<longleftrightarrow> l = x"
      by (auto simp: scan_line_spec)
    have "?R (ls @ [x]) \<longleftrightarrow> l = x"
    proof
      assume "?R (ls @ [x])"
      then obtain ls1 ls2 where d: "ls @ [x] = ls1 @ l # ls2"
        and last: "\<forall>l' \<in> set ls2. pattern_occurs l' \<longrightarrow> k \<noteq> diskIdentifier l'"
        by blast
      show "l = x"
      proof (cases ls2 rule: rev_cases)
        case Nil
        with d show ?thesis by simp
      next
        case (snoc ls2' y)
        with d have "y = x" by simp
        with snoc last True show ?thesis by simp
      qed
    next
      assume "l = x"
      with True have "ls @ [x] = ls @ l # [] \<and> pattern_occurs l \<and> k = diskIdentifier l \<and>
        (\<forall>l' \<in> set []. pattern_occurs l' \<longrightarrow> k \<noteq> diskIdentifier l')"
        by simp
      then show "?R (ls @ [x])" by blast
    qed
    with L show ?thesis by simp
  next
    case False
    then have L: "?L (ls @ [x]) \<longleftrightarrow> ?L ls"
      by (auto simp: scan_line_spec)
    have "?R (ls @ [x]) \<longleftrightarrow> ?R ls"
    proof
      assume "?R (ls @ [x])"
      then obtain ls1 ls2 where d: "ls @ [x] = ls1 @ l # ls2"
        and l: "pattern_occurs l" "k = diskIdentifier l"
        and last: "\<forall>l' \<in> set ls2. pattern_occurs l' \<longrightarrow> k \<noteq> diskIdentifier l'"
        by blast
      show "?R ls"
      proof (cases ls2 rule: rev_cases)
        case Nil
        with d have "l = x" by simp
        with l False show ?thesis by simp
      next
        case (snoc ls2' y)
        with d have "ls = ls1 @ l # ls2'" by simp
        moreover from snoc last
        have "\<forall>l' \<in> set ls2'. pattern_occurs l' \<longrightarrow> k \<noteq> diskIdentifier l'" by simp
        ultimately show ?thesis using l by blast
      qed
    next
      assume "?R ls"
      then obtain ls1 ls2 where d: "ls = ls1 @ l # ls2"
        and l: "pattern_occurs l" "k = diskIdentifier l"
        and last: "\<forall>l' \<in> set ls2. pattern_occurs l' \<longrightarrow> k \<noteq> diskIdentifier l'"
        by blast
      from d have "ls @ [x] = ls1 @ l # (ls2 @ [x])" by simp
      moreover from last False
      have "\<forall>l' \<in> set (ls2 @ [x]). pattern_occurs l' \<longrightarrow> k \<noteq> diskIdentifier l'" by auto
      ultimately show "?R (ls @ [x])" using l by blast
    qed
    with L snoc.IH show ?thesis by simp
  qed
qed

lemma foldl_scan_line_none:
  "\<forall>l \<in> set ls. \<not> pattern_occurs l \<Longrightarrow> foldl scan_line m ls = m"
  by (induction ls arbitrary: m) (simp_all add: scan_line_spec)


section \<open>The matcher's terms and the specification's\<close>

lemma counter_names_spec: "set counter_names = spec_counter_names"
  by (auto simp: counter_names_def spec_counter_names_def)

lemma is_space_spec: "is_space c \<longleftrightarrow> c \<in> spec_white_space"
  by (auto simp: is_space_def spec_white_space_def)

lemma is_digit_spec: "is_digit c \<longleftrightarrow> c \<in> spec_digits"
  by (auto simp: is_digit_def spec_digits_def)

lemma digit_value_spec: "c \<in> spec_digits \<Longrightarrow> digit_value c = spec_digit_value c"
  by (auto simp: spec_digits_def digit_value_def spec_digit_value_def)

lemma foldl_decimal_spec:
  "set ds \<subseteq> spec_digits \<Longrightarrow>
     foldl (\<lambda>n c. 10 * n + digit_value c) a ds = a * 10 ^ length ds + spec_value ds"
  by (induction ds arbitrary: a) (simp_all add: digit_value_spec algebra_simps)

lemma decimal_spec: "set ds \<subseteq> spec_digits \<Longrightarrow> decimal ds = spec_value ds"
  by (simp add: decimal_def foldl_decimal_spec)

lemma amended_problem_line_iff: "amended_problem_line line \<longleftrightarrow> pattern_occurs line"
proof
  assume "amended_problem_line line"
  then obtain before name ws ds after where
    "line = before @ name @ '':'' @ ws @ ds @ after" "name \<in> spec_counter_names"
    "set ws \<subseteq> spec_white_space" "ds \<noteq> []" "set ds \<subseteq> spec_digits" "0 < spec_value ds"
    unfolding amended_problem_line_def by blast
  then have "line = before @ name @ '':'' @ ws @ ds @ after \<and> name \<in> set counter_names \<and>
        list_all is_space ws \<and> ds \<noteq> [] \<and> list_all is_digit ds \<and> 0 < decimal ds"
    by (auto simp: counter_names_spec list_all_iff is_space_spec is_digit_spec decimal_spec)
  then show "pattern_occurs line" unfolding pattern_occurs_def by blast
next
  assume "pattern_occurs line"
  then obtain before name ws ds after where
    "line = before @ name @ '':'' @ ws @ ds @ after" "name \<in> set counter_names"
    "list_all is_space ws" "ds \<noteq> []" "list_all is_digit ds" "0 < decimal ds"
    unfolding pattern_occurs_def by blast
  then have "line = before @ name @ '':'' @ ws @ ds @ after \<and> name \<in> spec_counter_names \<and>
        set ws \<subseteq> spec_white_space \<and> ds \<noteq> [] \<and> set ds \<subseteq> spec_digits \<and> 0 < spec_value ds"
    by (auto simp: counter_names_spec list_all_iff is_space_spec is_digit_spec decimal_spec subset_iff)
  then show "amended_problem_line line" unfolding amended_problem_line_def by blast
qed

lemma spec_problem_line_amended: "spec_problem_line line \<Longrightarrow> amended_problem_line line"
proof -
  assume "spec_problem_line line"
  then obtain before name ds after where
    "line = before @ name @ '': '' @ ds @ after" "name \<in> spec_counter_names"
    "ds \<noteq> []" "set ds \<subseteq> spec_digits" "0 < spec_value ds"
    unfolding spec_problem_line_def by blast
  then have "line = before @ name @ '':'' @ '' '' @ ds @ after \<and> name \<in> spec_counter_names \<and>
        set '' '' \<subseteq> spec_white_space \<and> ds \<noteq> [] \<and> set ds \<subseteq> spec_digits \<and> 0 < spec_value ds"
    by (simp add: spec_white_space_def)
  then show ?thesis unfolding amended_problem_line_def by blast
qed

lemma dropCR_spec: "dropCR l = spec_without_cr l"
proof (cases l rule: rev_cases)
  case Nil
  then show ?thesis by (simp add: dropCR_def spec_without_cr_def)
next
  case (snoc l' c)
  then show ?thesis by (simp add: dropCR_def spec_without_cr_def carriage_return_def)
qed

section \<open>Facts about the scanner\<close>

lemma split_lines_line:
  "newline \<notin> set l \<Longrightarrow> split_lines acc (l @ newline # rest) = (acc @ l) # split_lines [] rest"
  by (induction l arbitrary: acc) auto

lemma split_lines_tail:
  "newline \<notin> set l \<Longrightarrow> split_lines acc l = (if acc @ l = [] then [] else [acc @ l])"
  by (induction l arbitrary: acc) auto

lemma split_lines_prefix:
  "newline \<notin> set l \<Longrightarrow> split_lines acc (l @ rest) = split_lines (acc @ l) rest"
  by (induction l arbitrary: acc) auto

lemma split_lines_started:
  "acc \<noteq> [] \<Longrightarrow> \<exists>more ls. split_lines acc rest = (acc @ more) # ls"
proof (induction rest arbitrary: acc)
  case Nil
  then have "split_lines acc [] = (acc @ []) # []" by simp
  then show ?case by blast
next
  case (Cons c rest)
  show ?case
  proof (cases "c = newline")
    case True
    then have "split_lines acc (c # rest) = (acc @ []) # split_lines [] rest" by simp
    then show ?thesis by blast
  next
    case False
    from Cons.IH[of "acc @ [c]"] obtain more ls
      where "split_lines (acc @ [c]) rest = ((acc @ [c]) @ more) # ls" by auto
    with False have "split_lines acc (c # rest) = (acc @ (c # more)) # ls" by simp
    then show ?thesis by blast
  qed
qed

lemma split_lines_text:
  "\<forall>l \<in> set ls. newline \<notin> set l \<Longrightarrow>
     split_lines [] (concat (map (\<lambda>l. l @ [newline]) ls) @ rest) = ls @ split_lines [] rest"
  by (induction ls) (simp_all add: split_lines_line)

lemma takeWhile_all: "\<forall>x \<in> set xs. P x \<Longrightarrow> takeWhile P (xs @ ys) = xs @ takeWhile P ys"
  by (induction xs) auto

lemma spec_text_newline: "spec_text ls = concat (map (\<lambda>l. l @ [newline]) ls)"
  by (simp add: spec_text_def newline_def)

text \<open>
  A text whose lines are all short is delivered whole, line by line, a last line without
  a line feed too. At a line of \<open>maxScanTokenSize\<close> bytes or more the delivery ends.
\<close>

lemma scanner_lines_short:
  assumes "\<forall>l \<in> set ls. CHR 0x0A \<notin> set l \<and> length l < 65536"
    and "CHR 0x0A \<notin> set t" and "length t < 65536"
  shows "scanner_lines (spec_text ls @ t)
     = map spec_without_cr (ls @ (if t = [] then [] else [t]))"
proof -
  have ls: "\<forall>l \<in> set ls. newline \<notin> set l" "\<forall>l \<in> set ls. length l < maxScanTokenSize"
    using assms(1) by (simp_all add: newline_def maxScanTokenSize_def)
  have t: "newline \<notin> set t" "length t < maxScanTokenSize"
    using assms(2,3) by (simp_all add: newline_def maxScanTokenSize_def)
  have "split_lines [] (spec_text ls @ t) = ls @ (if t = [] then [] else [t])"
    using ls(1) t(1) by (simp add: spec_text_newline split_lines_text split_lines_tail)
  moreover have "takeWhile (\<lambda>l. length l < maxScanTokenSize) (ls @ (if t = [] then [] else [t]))
      = ls @ (if t = [] then [] else [t])"
    using ls(2) t(2) by (simp add: takeWhile_all)
  ultimately show ?thesis
    by (simp add: scanner_lines_def dropCR_spec[abs_def])
qed

lemma scanner_lines_long:
  assumes "\<forall>l \<in> set ls. CHR 0x0A \<notin> set l \<and> length l < 65536"
    and "65536 \<le> length long" and "CHR 0x0A \<notin> set long"
  shows "scanner_lines (spec_text ls @ long @ rest) = map spec_without_cr ls"
proof -
  have ls: "\<forall>l \<in> set ls. newline \<notin> set l" "\<forall>l \<in> set ls. length l < maxScanTokenSize"
    using assms(1) by (simp_all add: newline_def maxScanTokenSize_def)
  have long: "newline \<notin> set long" "long \<noteq> []"
    using assms(2,3) by (auto simp: newline_def)
  have "split_lines [] (long @ rest) = split_lines long rest"
    using long(1) split_lines_prefix[of long "[]" rest] by simp
  then obtain more ls' where "split_lines [] (long @ rest) = (long @ more) # ls'"
    using split_lines_started[OF long(2), of rest] by auto
  then have "split_lines [] (spec_text ls @ long @ rest) = ls @ (long @ more) # ls'"
    using ls(1) by (simp add: spec_text_newline split_lines_text)
  moreover have "\<not> length (long @ more) < maxScanTokenSize"
    using assms(2) by (simp add: maxScanTokenSize_def)
  ultimately have "takeWhile (\<lambda>l. length l < maxScanTokenSize)
      (split_lines [] (spec_text ls @ long @ rest)) = ls"
    using ls(2) by (simp add: takeWhile_all)
  then show ?thesis
    by (simp add: scanner_lines_def dropCR_spec[abs_def])
qed

section \<open>More small reports, evaluated\<close>

lemmas line_eval = scan_line_def findAllStringSubmatch_def match_here_def counter_names_def
  match_name_def is_space_def is_digit_def Let_def atoi_def decimal_def digit_value_def maxInt_def
  diskIdentifier_def

lemma no_occurrence:
  assumes "sep \<noteq> []" and "split_first sep s = s"
  shows "\<forall>a b. s \<noteq> a @ sep @ b"
  using split_first_spec[OF assms(1), of s] assms by auto

lemma spec_problem_line_E: "spec_problem_line ''E - Wear: 2''"
proof -
  have "''E - Wear: 2'' = ''E - '' @ ''Wear'' @ '': '' @ ''2'' @ [] \<and> ''Wear'' \<in> spec_counter_names \<and>
        ''2'' \<noteq> [] \<and> set ''2'' \<subseteq> spec_digits \<and> 0 < spec_value ''2''"
    by (simp add: spec_counter_names_def spec_digits_def spec_digit_value_def)
  then show ?thesis unfolding spec_problem_line_def by blast
qed

lemma not_spec_problem_line_no_blank: "\<not> spec_problem_line report_no_blank"
proof
  assume "spec_problem_line report_no_blank"
  then obtain before name ds after where
    "report_no_blank = (before @ name) @ '': '' @ (ds @ after)"
    unfolding spec_problem_line_def by auto
  moreover have "\<forall>a b. report_no_blank \<noteq> a @ '': '' @ b"
    by (rule no_occurrence) (simp_all add: report_no_blank_def)
  ultimately show False by blast
qed

lemma parse_no_blank: "parseProblems report_no_blank = [(''D'', ''D - Wear:5'')]"
  by (simp add: report_no_blank_def parser_eval)

lemma parse_sentinel_line:
  "parseProblems report_sentinel = [(''powershell_error'', ''powershell_error - Wear: 1'')]"
  by (simp add: report_sentinel_def parser_eval)

lemma report_long_text:
  "report_long = spec_text [''D - Wear: 1'', replicate 65536 CHR ''a''] @ ''E - Wear: 2''"
  by (simp add: report_long_def spec_text_def newline_def)

lemma scanner_lines_report_long: "scanner_lines report_long = [''D - Wear: 1'']"
proof -
  have "report_long = spec_text [''D - Wear: 1''] @ replicate 65536 CHR ''a''
      @ (CHR 0x0A # ''E - Wear: 2'')"
    by (simp add: report_long_def spec_text_def newline_def)
  moreover have "scanner_lines (spec_text [''D - Wear: 1''] @ replicate 65536 CHR ''a''
      @ (CHR 0x0A # ''E - Wear: 2'')) = map spec_without_cr [''D - Wear: 1'']"
    by (rule scanner_lines_long) simp_all
  moreover have "spec_without_cr ''D - Wear: 1'' = ''D - Wear: 1''"
    by (simp add: dropCR_spec[symmetric] dropCR_def carriage_return_def)
  ultimately show ?thesis by simp
qed

lemma parse_long: "parseProblems report_long = [(''D'', ''D - Wear: 1'')]"
  by (simp add: parseProblems_def scanner_lines_report_long line_eval)

section \<open>Facts about the summary and about the cycle after a failure\<close>

lemma join_listing:
  "ds \<noteq> [] \<Longrightarrow> ''`'' @ join ds (''`'' @ [newline] @ ''`'') @ ''`'' = spec_listing ds"
  by (induction ds rule: spec_listing.induct) (simp_all add: newline_def)

lemma summaryMessage_empty:
  "summaryMessage env [] = [CHR 0xE2, CHR 0x9C, CHR 0x85] @ '' Test complete. No active problems found.''"
  by (simp add: summaryMessage_def no_problems_message_def emoji_check_def)

lemma summaryMessage_listing:
  assumes "S \<noteq> []"
  shows "\<exists>ds. mset ds = mset (map snd S) \<and>
           summaryMessage env S
             = [CHR 0xE2, CHR 0x84, CHR 0xB9, CHR 0xEF, CHR 0xB8, CHR 0x8F]
               @ '' Test complete. Current active problems:'' @ [CHR 0x0A, CHR 0x0A]
               @ spec_listing ds"
proof -
  define ds where "ds = map snd (go_range (pick env 2) S)"
  have m: "mset ds = mset (map snd S)"
    unfolding ds_def by (metis mset_go_range mset_map)
  have "ds \<noteq> []" using assms m by (metis mset_zero_iff map_is_Nil_conv)
  then have "''`'' @ join ds (''`'' @ [newline] @ ''`'') @ ''`'' = spec_listing ds"
    by (rule join_listing)
  then have "summaryMessage env S
             = [CHR 0xE2, CHR 0x84, CHR 0xB9, CHR 0xEF, CHR 0xB8, CHR 0x8F]
               @ '' Test complete. Current active problems:'' @ [CHR 0x0A, CHR 0x0A]
               @ spec_listing ds"
    using assms by (simp add: summaryMessage_def ds_def emoji_info_def newline_def)
  with m show ?thesis by blast
qed

lemma check_leaves_the_parsed_map:
  assumes "distinct (map fst (lastErrorState w))"
  shows "set (lastErrorState (checkDiskStatusAndNotify env (Inr raw) w)) = set (parseProblems raw)"
proof (cases "deepEqual (parseProblems raw) (lastErrorState w)")
  case True
  then have "map_of (parseProblems raw) = map_of (lastErrorState w)"
    using assms by (simp add: deepEqual_iff parseProblems_distinct)
  then have "set (parseProblems raw) = set (lastErrorState w)"
    using assms parseProblems_distinct[of raw] by (simp add: map_of_inject_set)
  with True show ?thesis by (simp add: check_unchanged)
next
  case False
  then show ?thesis by (simp add: check_changed)
qed

lemma split_first_head:
  "split_first sep (c # cs) = [] \<or> (\<exists>r. split_first sep (c # cs) = c # r)"
  by simp

lemma failure_message_not_stored:
  "(sentinel, acquisition_message err) \<notin> set (parseProblems raw)"
proof
  assume "(sentinel, acquisition_message err) \<in> set (parseProblems raw)"
  then have "sentinel = diskIdentifier (acquisition_message err)"
    using parseProblems_ok[of raw] by (auto simp: stored_ok_def)
  then show False
    using split_first_head[of "'' - ''" "CHR ''F''" "''ailed to run PowerShell command: '' @ err"]
    by (auto simp: diskIdentifier_def acquisition_message_def sentinel_def)
qed

lemma diff_message_after_failure:
  "diff_message env [(sentinel, acquisition_message err)] (parseProblems raw)
     = diff_header
       @ concat (map (\<lambda>(device, description). detected_block description)
           (go_range (pick env 0) (parseProblems raw)))
       @ (if map_of (parseProblems raw) sentinel = None then resolved_block sentinel else [])"
proof -
  have "\<forall>e \<in> set (go_range (pick env 0) (parseProblems raw)).
      (case e of (device, description) \<Rightarrow>
         map_of [(sentinel, acquisition_message err)] device \<noteq> Some description)"
    using failure_message_not_stored[of err raw] by (auto split: if_splits)
  then have all_new: "spec_changedOrNew [(sentinel, acquisition_message err)]
      (go_range (pick env 0) (parseProblems raw)) = go_range (pick env 0) (parseProblems raw)"
    unfolding spec_changedOrNew_def by (simp add: filter_id_conv)
  have res: "spec_resolved (go_range (pick env 1) [(sentinel, acquisition_message err)])
      (parseProblems raw) = (if map_of (parseProblems raw) sentinel = None then [sentinel] else [])"
    by (simp add: spec_resolved_def)
  show ?thesis
    unfolding diff_message_parse all_new res by auto
qed

lemma changed_after_failure:
  "\<not> deepEqual (parseProblems raw) [(sentinel, acquisition_message err)]"
proof
  assume "deepEqual (parseProblems raw) [(sentinel, acquisition_message err)]"
  then have len: "length (parseProblems raw) = 1"
    and all: "\<forall>(k, v) \<in> set (parseProblems raw). k = sentinel \<and> v = acquisition_message err"
    by (auto simp: deepEqual_def list_all_iff split: if_splits)
  from len obtain e where "e \<in> set (parseProblems raw)"
    by (cases "parseProblems raw") auto
  with all have "(sentinel, acquisition_message err) \<in> set (parseProblems raw)"
    by (cases e) auto
  then show False using failure_message_not_stored by blast
qed


text \<open>Disk \<open>D\<close> flagged, then a failed acquisition, then a report, against \<open>env_up\<close>.\<close>

lemma after_failure_D:
  "checkDiskStatusAndNotify env_up (Inl ''exit status 1'')
     \<lparr>lastErrorState = [(''D'', ''D - Wear: 1'')], effects = []\<rparr>
   = \<lparr>lastErrorState = [(sentinel, acquisition_message ''exit status 1'')],
      effects = [Log (LogPowerShellError (acquisition_message ''exit status 1'')),
                 SendText (fullMessage ''h''
                   (emoji_warning @ '' '' @ acquisition_message ''exit status 1'')) False,
                 Log LogSentOK]\<rparr>"
proof -
  have "map_index (lastErrorState \<lparr>lastErrorState = [(''D'', ''D - Wear: 1'')], effects = []\<rparr>)
      sentinel \<noteq> acquisition_message ''exit status 1''"
    by (simp add: map_index_def sentinel_def acquisition_message_def)
  then show ?thesis
    by (simp add: check_failure_new sendTelegramNotification_first_ok request_number_def
        env_up_def[THEN arg_cong, of transport_error] env_up_def[THEN arg_cong, of hostname]
        short_message acquisition_message_def emoji_warning_def emit_def)
qed

lemma after_failure_D_report:
  assumes "diff_message env_up [(sentinel, acquisition_message ''exit status 1'')]
             (parseProblems raw) = m"
    and "length m \<le> 4000"
  shows "requests (effects (checkDiskStatusAndNotify env_up (Inr raw)
       (checkDiskStatusAndNotify env_up (Inl ''exit status 1'')
          \<lparr>lastErrorState = [(''D'', ''D - Wear: 1'')], effects = []\<rparr>)))
     = [SendText (fullMessage ''h''
          ([CHR 0xE2, CHR 0x9A, CHR 0xA0, CHR 0xEF, CHR 0xB8, CHR 0x8F]
             @ '' Failed to run PowerShell command: exit status 1'')) False,
        SendText (fullMessage ''h'' m) False]"
  using changed_after_failure[of raw "''exit status 1''"] assms
  by (simp add: after_failure_D check_changed sendTelegramNotification_first_ok
      request_number_def
      env_up_def[THEN arg_cong, of transport_error] env_up_def[THEN arg_cong, of hostname]
      short_message)
     (simp add: acquisition_message_def emoji_warning_def)

lemmas diff_eval = diff_message_def map_index_def map_exists_def go_range_def env_up_def
  diff_header_def detected_block_def resolved_block_def emoji_red_def emoji_green_def
  acquisition_message_def sentinel_def newline_def


section \<open>The claims\<close>

text \<open>
  Claim C1. For every previous map and every map the parser builds, the message of the
  cycle is the header, then one detected block for each entry of the specification's
  \<open>changedOrNew\<close>, then one resolved block for each key of its \<open>resolved\<close>.
  \<open>changedOrNew\<close> holds exactly the entries of the current map that the previous map does
  not hold with the same description (absent keys among them), \<open>resolved\<close> exactly the
  keys of the previous map that the current map lacks. An entry that both maps hold is in
  neither collection, so the message has no block for it.
\<close>

theorem diff_reports_changed_new_and_resolved_devices:
  "diff_message env previous (parseProblems raw)
     = diff_header
       @ concat (map (\<lambda>(device, description). detected_block description)
           (spec_changedOrNew previous (go_range (pick env 0) (parseProblems raw))))
       @ concat (map resolved_block
           (spec_resolved (go_range (pick env 1) previous) (parseProblems raw)))
   \<and> set (spec_changedOrNew previous (go_range (pick env 0) (parseProblems raw)))
       = {(device, description). map_of (parseProblems raw) device = Some description
            \<and> map_of previous device \<noteq> Some description}
   \<and> set (spec_resolved (go_range (pick env 1) previous) (parseProblems raw))
       = {device. map_of previous device \<noteq> None \<and> map_of (parseProblems raw) device = None}
   \<and> (\<forall>device description.
         map_of (parseProblems raw) device = Some description
           \<and> map_of previous device = Some description
         \<longrightarrow> (device, description)
               \<notin> set (spec_changedOrNew previous (go_range (pick env 0) (parseProblems raw)))
             \<and> device
               \<notin> set (spec_resolved (go_range (pick env 1) previous) (parseProblems raw)))"
proof -
  have msg: "diff_message env previous (parseProblems raw)
     = diff_header
       @ concat (map (\<lambda>(device, description). detected_block description)
           (spec_changedOrNew previous (go_range (pick env 0) (parseProblems raw))))
       @ concat (map resolved_block
           (spec_resolved (go_range (pick env 1) previous) (parseProblems raw)))"
    by (rule diff_message_parse)
  have chg: "set (spec_changedOrNew previous (go_range (pick env 0) (parseProblems raw)))
       = {(device, description). map_of (parseProblems raw) device = Some description
            \<and> map_of previous device \<noteq> Some description}"
    using parseProblems_distinct[of raw] by (auto simp: spec_changedOrNew_def)
  have res: "set (spec_resolved (go_range (pick env 1) previous) (parseProblems raw))
       = {device. map_of previous device \<noteq> None \<and> map_of (parseProblems raw) device = None}"
    by (auto simp: spec_resolved_def map_of_eq_None_iff)
  show ?thesis
    unfolding chg res using msg by simp
qed

text \<open>Disk \<open>D\<close> unchanged, disk \<open>E\<close> new, disk \<open>F\<close> gone: one block for \<open>E\<close>, one for \<open>F\<close>.\<close>

theorem diff_reports_changed_new_and_resolved_devices_witness:
  "map_of (parseProblems report_two) ''D''
     = Some ''D - Wear: 1''
   \<and> map_of [(''D'', ''D - Wear: 1''), (''F'', ''F - Wear: 9'')] ''D'' = Some ''D - Wear: 1''
   \<and> (''D'', ''D - Wear: 1'')
       \<notin> set (spec_changedOrNew [(''D'', ''D - Wear: 1''), (''F'', ''F - Wear: 9'')]
                (go_range (pick env_up 0)
                   (parseProblems report_two)))
   \<and> ''D'' \<notin> set (spec_resolved
                (go_range (pick env_up 1) [(''D'', ''D - Wear: 1''), (''F'', ''F - Wear: 9'')])
                (parseProblems report_two))
   \<and> diff_message env_up [(''D'', ''D - Wear: 1''), (''F'', ''F - Wear: 9'')]
         (parseProblems report_two)
       = diff_header @ detected_block ''E - Wear: 2'' @ resolved_block ''F''"
  using diff_reports_changed_new_and_resolved_devices[of env_up
      "[(''D'', ''D - Wear: 1''), (''F'', ''F - Wear: 9'')]"
      report_two]
  by (simp add: parse_two_lines spec_changedOrNew_def spec_resolved_def go_range_def env_up_def)

text \<open>
  Claim C2. When every attempt of a delivery fails, the engine makes exactly five requests,
  sleeps 5, 15, 45 and 135 seconds between them, writes the gave-up line to the log last,
  and returns to its caller with the retained state untouched.
\<close>

theorem retry_policy_when_every_attempt_fails:
  assumes "\<forall>k < 5. transport_error env (request_number w + k) \<noteq> None"
  shows "\<exists>new. effects (sendTelegramNotification env message w) = effects w @ new \<and>
           filter (\<lambda>e. is_request e \<or> is_sleep e) new
             = [request_event env (fullMessage (hostname env) message) (request_number w),
                Sleep (5 * second),
                request_event env (fullMessage (hostname env) message) (request_number w + 1),
                Sleep (15 * second),
                request_event env (fullMessage (hostname env) message) (request_number w + 2),
                Sleep (45 * second),
                request_event env (fullMessage (hostname env) message) (request_number w + 3),
                Sleep (135 * second),
                request_event env (fullMessage (hostname env) message) (request_number w + 4)] \<and>
           last new = Log (LogGaveUp 5) \<and>
           lastErrorState (sendTelegramNotification env message w) = lastErrorState w"
proof -
  have fails: "\<forall>k \<le> maxRetries - 0. transport_error env (request_number w + k) \<noteq> None"
    using assms by (simp add: maxRetries_def)
  have upt: "[0 ..< 4] = [0, 1, 2, 3::nat]"
    by (simp add: upt_rec)
  from send_attempts_all_fail[OF _ fails, of "fullMessage (hostname env) message"]
  obtain new where "effects (sendTelegramNotification env message w) = effects w @ new"
    and "filter (\<lambda>e. is_request e \<or> is_sleep e) new
             = concat (map (\<lambda>j. [request_event env (fullMessage (hostname env) message) (request_number w + (j - 0)),
                                  Sleep (retry_delay j)]) [0 ..< maxRetries])
               @ [request_event env (fullMessage (hostname env) message) (request_number w + (maxRetries - 0))]"
    and "last new = Log (LogGaveUp (Suc maxRetries))"
    by (auto simp: sendTelegramNotification_def)
  then show ?thesis
    by (simp add: upt retry_delay_def initialRetryDelay_def maxRetries_def)
qed

text \<open>The endpoint that refuses every request, and a fresh process.\<close>

theorem retry_policy_when_every_attempt_fails_witness:
  "list_all (\<lambda>k. transport_error env_down (request_number initial_world + k) \<noteq> None)
     [0, 1, 2, 3, 4]
   \<and> (\<exists>new. effects (sendTelegramNotification env_down ''m'' initial_world) = new \<and>
         filter (\<lambda>e. is_request e \<or> is_sleep e) new
           = [SendText (fullMessage ''h'' ''m'') False, Sleep 5000000000,
              SendText (fullMessage ''h'' ''m'') False, Sleep 15000000000,
              SendText (fullMessage ''h'' ''m'') False, Sleep 45000000000,
              SendText (fullMessage ''h'' ''m'') False, Sleep 135000000000,
              SendText (fullMessage ''h'' ''m'') False] \<and>
         last new = Log (LogGaveUp 5))"
  using retry_policy_when_every_attempt_fails[of env_down initial_world "''m''"]
  by (simp add: env_down_def initial_world_def request_event_def fullMessage_def emoji_host_def
      telegramMsgLimit_def second_def)

text \<open>
  Claim C3, as amended. The transport is chosen by the length in bytes of the message with
  the host prefix in front of it: every request of a delivery is a document when that
  length is above 4096, and an inline text otherwise, so also at exactly 4096 bytes.
\<close>

theorem transport_follows_bytes_of_prefixed_message:
  "\<exists>n new. 1 \<le> n \<and> n \<le> 5 \<and>
     effects (sendTelegramNotification env message w) = effects w @ new \<and>
     requests new =
       map (\<lambda>k. if length (fullMessage (hostname env) message) > 4096
                then SendDocument (fileName env k) (fullMessage (hostname env) message)
                else SendText (fullMessage (hostname env) message) False)
         [request_number w ..< request_number w + n]"
proof -
  obtain n new where "1 \<le> n" "n \<le> maxRetries + 1"
    "effects (sendTelegramNotification env message w) = effects w @ new"
    "requests new = map (request_event env (fullMessage (hostname env) message))
                      [request_number w ..< request_number w + n]"
    using sendTelegramNotification_shape[of env message w] by blast
  then have "1 \<le> n \<and> n \<le> 5 \<and>
     effects (sendTelegramNotification env message w) = effects w @ new \<and>
     requests new =
       map (\<lambda>k. if length (fullMessage (hostname env) message) > 4096
                then SendDocument (fileName env k) (fullMessage (hostname env) message)
                else SendText (fullMessage (hostname env) message) False)
         [request_number w ..< request_number w + n]"
    by (simp add: request_event_def telegramMsgLimit_def maxRetries_def)
  then show ?thesis by blast
qed

text \<open>At the bound: with the prefix for host \<open>h\<close>, 4073 letters make 4096 bytes.\<close>

theorem transport_follows_bytes_of_prefixed_message_witness:
  "length (fullMessage ''h'' (replicate 4073 CHR ''a'')) = 4096 \<and>
   requests (effects (sendTelegramNotification env_up
       (replicate 4073 CHR ''a'') initial_world))
     = [SendText (fullMessage ''h'' (replicate 4073 CHR ''a'')) False]"
proof -
  have len: "length (fullMessage ''h'' (replicate 4073 CHR ''a'')) = 4096"
    by (simp add: fullMessage_def emoji_host_def)
  have "requests (effects (sendTelegramNotification env_up
       (replicate 4073 CHR ''a'') initial_world))
     = [SendText (fullMessage ''h'' (replicate 4073 CHR ''a'')) False]"
    by (simp add: sendTelegramNotification_def send_attempts_ok request_number_def
        initial_world_def request_event_def len telegramMsgLimit_def env_up_def)
  with len show ?thesis
    using transport_follows_bytes_of_prefixed_message[of env_up
       "replicate 4073 CHR ''a''" initial_world]
    by simp
qed

text \<open>
  Claim C3 as stated fails. A composed message of 4078 letters is below the bound; the
  prefix for host \<open>h\<close> brings it to exactly 4096 characters, which are 4101 bytes, and
  it goes out as a document.
\<close>

theorem message_of_4078_characters_goes_out_as_document:
  "length (replicate 4078 CHR ''a'') \<le> 4096 \<and>
   spec_characters (replicate 4078 CHR ''a'') \<le> 4096 \<and>
   spec_characters (fullMessage ''h'' (replicate 4078 CHR ''a'')) = 4096 \<and>
   requests (effects (sendTelegramNotification env_up
       (replicate 4078 CHR ''a'') initial_world))
     = [SendDocument ''log_h_t.txt'' (fullMessage ''h'' (replicate 4078 CHR ''a''))]"
proof -
  have len: "length (fullMessage ''h'' (replicate 4078 CHR ''a'')) = 4101"
    by (simp add: fullMessage_def emoji_host_def)
  have chars: "spec_characters (fullMessage ''h'' (replicate 4078 CHR ''a'')) = 4096"
    by (simp add: fullMessage_def emoji_host_def newline_def) (simp add: spec_characters_def)
  have "requests (effects (sendTelegramNotification env_up
       (replicate 4078 CHR ''a'') initial_world))
     = [SendDocument ''log_h_t.txt'' (fullMessage ''h'' (replicate 4078 CHR ''a''))]"
    by (simp add: sendTelegramNotification_def send_attempts_ok request_number_def
        initial_world_def request_event_def len telegramMsgLimit_def fileName_def env_up_def)
  with chars show ?thesis by simp
qed

text \<open>
  Claim C4. When the parsed map differs from the retained one, the retained state after
  the cycle is the parsed map. This holds in every environment, so whether the requests of
  the notification succeed or fail.
\<close>

theorem state_commit_does_not_wait_for_delivery:
  assumes "\<not> deepEqual (parseProblems outputStr) (lastErrorState w)"
  shows "lastErrorState (checkDiskStatusAndNotify env (Inr outputStr) w) = parseProblems outputStr"
  using assms by (simp add: checkDiskStatusAndNotify_def Let_def)

text \<open>With the endpoint that refuses every request.\<close>

theorem state_commit_does_not_wait_for_delivery_witness:
  "\<not> deepEqual (parseProblems ''D - Wear: 1'') (lastErrorState initial_world) \<and>
   lastErrorState (checkDiskStatusAndNotify env_down (Inr ''D - Wear: 1'') initial_world)
     = [(''D'', ''D - Wear: 1'')]"
proof -
  have changed: "\<not> deepEqual (parseProblems ''D - Wear: 1'') (lastErrorState initial_world)"
    by (simp add: parse_one_line deepEqual_def initial_world_def)
  from state_commit_does_not_wait_for_delivery[OF changed] changed show ?thesis
    by (simp add: parse_one_line)
qed

text \<open>
  Claim C5, as amended. The scanner delivers the lines of the raw text, each without one
  carriage return at its end, up to the first line of 65536 bytes or more, where it stops.
  A delivered line is stored if and only if one of the four counter names, a colon, white
  space or none, and a run of digits with a value above zero occur in it. It is stored as
  delivered, under the text before its first \<open>" - "\<close> (under the whole line when there is
  none). So the parsed map holds, under each key, the last delivered problem line with that
  key, and it is empty when no delivered line is a problem line.
\<close>

theorem parser_stores_the_problem_lines_the_scanner_delivers:
  "(hasProblem (findAllStringSubmatch line) \<longleftrightarrow> amended_problem_line line)
   \<and> scan_line currentProblems line
       = (if amended_problem_line line
          then map_assign currentProblems (diskIdentifier line) line else currentProblems)
   \<and> (spec_device_key line key \<longleftrightarrow> key = diskIdentifier line)
   \<and> ((\<forall>l \<in> set ls. CHR 0x0A \<notin> set l \<and> length l < 65536)
         \<and> CHR 0x0A \<notin> set t \<and> length t < 65536
       \<longrightarrow> scanner_lines (spec_text ls @ t)
             = map spec_without_cr (ls @ (if t = [] then [] else [t])))
   \<and> ((\<forall>l \<in> set ls. CHR 0x0A \<notin> set l \<and> length l < 65536)
         \<and> CHR 0x0A \<notin> set long \<and> 65536 \<le> length long
       \<longrightarrow> scanner_lines (spec_text ls @ long @ rest) = map spec_without_cr ls)
   \<and> (map_of (parseProblems raw) key = Some line \<longleftrightarrow>
        (\<exists>ls1 ls2. scanner_lines raw = ls1 @ line # ls2 \<and> amended_problem_line line \<and>
           spec_device_key line key \<and>
           (\<forall>l \<in> set ls2. amended_problem_line l \<longrightarrow> \<not> spec_device_key l key)))
   \<and> ((\<forall>l \<in> set (scanner_lines raw). \<not> amended_problem_line l) \<longrightarrow> parseProblems raw = [])"
proof -
  have one: "hasProblem (findAllStringSubmatch line) \<longleftrightarrow> amended_problem_line line"
    by (simp add: hasProblem_iff amended_problem_line_iff)
  have two: "scan_line currentProblems line
       = (if amended_problem_line line
          then map_assign currentProblems (diskIdentifier line) line else currentProblems)"
    by (simp add: scan_line_spec amended_problem_line_iff)
  have three: "spec_device_key line key \<longleftrightarrow> key = diskIdentifier line"
    by (rule spec_device_key_iff)
  have four: "(\<forall>l \<in> set ls. CHR 0x0A \<notin> set l \<and> length l < 65536)
         \<and> CHR 0x0A \<notin> set t \<and> length t < 65536
       \<longrightarrow> scanner_lines (spec_text ls @ t)
             = map spec_without_cr (ls @ (if t = [] then [] else [t]))"
    using scanner_lines_short[of ls t] by blast
  have five: "(\<forall>l \<in> set ls. CHR 0x0A \<notin> set l \<and> length l < 65536)
         \<and> CHR 0x0A \<notin> set long \<and> 65536 \<le> length long
       \<longrightarrow> scanner_lines (spec_text ls @ long @ rest) = map spec_without_cr ls"
    using scanner_lines_long[of ls long rest] by blast
  have six: "map_of (parseProblems raw) key = Some line \<longleftrightarrow>
        (\<exists>ls1 ls2. scanner_lines raw = ls1 @ line # ls2 \<and> amended_problem_line line \<and>
           spec_device_key line key \<and>
           (\<forall>l \<in> set ls2. amended_problem_line l \<longrightarrow> \<not> spec_device_key l key))"
    unfolding parseProblems_def foldl_scan_line_last spec_device_key_iff amended_problem_line_iff
    by simp
  have seven: "(\<forall>l \<in> set (scanner_lines raw). \<not> amended_problem_line l) \<longrightarrow> parseProblems raw = []"
    by (simp add: parseProblems_def foldl_scan_line_none amended_problem_line_iff)
  from one two three four five six seven show ?thesis by blast
qed

text \<open>
  A report of two worn disks, a report of one healthy disk whose line ends in a carriage
  return, and the report with the line of 65536 bytes.
\<close>

theorem parser_stores_the_problem_lines_the_scanner_delivers_witness:
  "amended_problem_line ''E - Wear: 2''
   \<and> \<not> amended_problem_line ''D - Wear: 0''
   \<and> spec_device_key ''E - Wear: 2'' ''E''
   \<and> scanner_lines (spec_text [''D - Wear: 1''] @ ''E - Wear: 2'')
       = [''D - Wear: 1'', ''E - Wear: 2'']
   \<and> scanner_lines (spec_text [''D - Wear: 0'' @ [CHR 0x0D]]) = [''D - Wear: 0'']
   \<and> scanner_lines (spec_text [''D - Wear: 1''] @ replicate 65536 CHR ''a''
         @ CHR 0x0A # ''E - Wear: 2'') = [''D - Wear: 1'']
   \<and> map_of (parseProblems report_two) ''E'' = Some ''E - Wear: 2''
   \<and> parseProblems report_healthy = []"
proof -
  have e: "hasProblem (findAllStringSubmatch ''E - Wear: 2'')"
    "diskIdentifier ''E - Wear: 2'' = ''E''"
    by (simp_all add: parser_eval)
  have d: "\<not> hasProblem (findAllStringSubmatch ''D - Wear: 0'')"
    "scanner_lines report_healthy = [''D - Wear: 0'']"
    by (simp_all add: report_healthy_def parser_eval)
  have cr: "spec_without_cr ''D - Wear: 1'' = ''D - Wear: 1''"
    "spec_without_cr ''E - Wear: 2'' = ''E - Wear: 2''"
    "spec_without_cr (''D - Wear: 0'' @ [CHR 0x0D]) = ''D - Wear: 0''"
    by (simp_all add: dropCR_spec[symmetric] dropCR_def carriage_return_def)
  from parser_stores_the_problem_lines_the_scanner_delivers
         [of "''E - Wear: 2''" "[]" "''E''" "[''D - Wear: 1'']" "''E - Wear: 2''"
             "replicate 65536 CHR ''a''" "CHR 0x0A # ''E - Wear: 2''" report_two]
       parser_stores_the_problem_lines_the_scanner_delivers
         [of "''D - Wear: 0''" "[]" "''D''" "[''D - Wear: 0'' @ [CHR 0x0D]]" "[]"
             "replicate 65536 CHR ''a''" "[]" report_healthy]
       e d cr
  show ?thesis
    by (simp add: parse_two_lines)
qed

text \<open>
  Claim C5 as stated fails. The line \<open>E - Wear: 2\<close> is a line of the raw text and a
  problem line in the claim's words, yet it is not stored, because it stands behind a line
  of 65536 bytes. The line \<open>D - Wear:5\<close> is stored although it does not match the
  pattern \<open><Name>: <digits>\<close>.
\<close>

theorem problem_line_behind_a_long_line_is_not_stored:
  "spec_problem_line ''E - Wear: 2''
   \<and> report_long = spec_text [''D - Wear: 1'', replicate 65536 CHR ''a''] @ ''E - Wear: 2''
   \<and> map_of (parseProblems report_long) ''E'' = None
   \<and> parseProblems report_long = [(''D'', ''D - Wear: 1'')]
   \<and> report_no_blank = ''D - Wear:5''
   \<and> \<not> spec_problem_line report_no_blank
   \<and> parseProblems report_no_blank = [(''D'', ''D - Wear:5'')]"
  using spec_problem_line_E report_long_text not_spec_problem_line_no_blank
  by (simp add: parse_long parse_no_blank) (simp add: report_no_blank_def)

text \<open>
  Claim C6. When the parsed map has the keys and the descriptions of the retained map, the
  cycle makes no request and leaves the retained state as it was. For every map \<open>S\<close>
  with distinct keys, the diff of \<open>S\<close> with itself has an empty \<open>changedOrNew\<close> and an
  empty \<open>resolved\<close>, and the two loops of the message write nothing.
\<close>

theorem equal_state_is_silent_and_diff_is_reflexive:
  assumes "distinct (map fst (lastErrorState w))"
    and "map_of (parseProblems raw) = map_of (lastErrorState w)"
    and "distinct (map fst S)"
  shows "requests (effects (checkDiskStatusAndNotify env (Inr raw) w)) = requests (effects w)
     \<and> lastErrorState (checkDiskStatusAndNotify env (Inr raw) w) = lastErrorState w
     \<and> spec_changedOrNew S (go_range (pick env 0) S) = []
     \<and> spec_resolved (go_range (pick env 1) S) S = []
     \<and> resolved_loop S (go_range (pick env 1) S)
          (detected_loop S (go_range (pick env 0) S) diff_header) = diff_header"
proof -
  have "deepEqual (parseProblems raw) (lastErrorState w)"
    using assms(1,2) by (simp add: deepEqual_iff parseProblems_distinct)
  then have cycle: "checkDiskStatusAndNotify env (Inr raw) w
     = emit (Log LogStatusUnchanged) (emit (Log (LogCheckResult raw)) w)"
    by (rule check_unchanged)
  have chg: "spec_changedOrNew S (go_range (pick env 0) S) = []"
    using assms(3) by (auto simp: spec_changedOrNew_def filter_empty_conv)
  have res: "spec_resolved (go_range (pick env 1) S) S = []"
    by (auto simp: spec_resolved_def filter_empty_conv map_of_eq_None_iff)
  have det: "detected_loop S (go_range (pick env 0) S) diff_header = diff_header"
    using assms(3)
    by (auto simp: detected_loop_eq filter_empty_conv map_index_def)
  have "resolved_loop S (go_range (pick env 1) S) diff_header = diff_header"
    using res by (simp add: resolved_loop_eq resolved_filter)
  with det cycle chg res show ?thesis by simp
qed

text \<open>The same worn disk in the retained state and in the report.\<close>

theorem equal_state_is_silent_and_diff_is_reflexive_witness:
  "distinct (map fst [(''D'', ''D - Wear: 1'')])
   \<and> map_of (parseProblems ''D - Wear: 1'') = map_of [(''D'', ''D - Wear: 1'')]
   \<and> requests (effects (checkDiskStatusAndNotify env_up (Inr ''D - Wear: 1'')
         \<lparr>lastErrorState = [(''D'', ''D - Wear: 1'')], effects = []\<rparr>)) = []
   \<and> lastErrorState (checkDiskStatusAndNotify env_up (Inr ''D - Wear: 1'')
         \<lparr>lastErrorState = [(''D'', ''D - Wear: 1'')], effects = []\<rparr>)
       = [(''D'', ''D - Wear: 1'')]
   \<and> spec_changedOrNew [(''D'', ''D - Wear: 1'')]
         (go_range (pick env_up 0) [(''D'', ''D - Wear: 1'')]) = []
   \<and> spec_resolved (go_range (pick env_up 1) [(''D'', ''D - Wear: 1'')])
         [(''D'', ''D - Wear: 1'')] = []"
  using equal_state_is_silent_and_diff_is_reflexive[of
      "\<lparr>lastErrorState = [(''D'', ''D - Wear: 1'')], effects = []\<rparr>" "''D - Wear: 1''"
      "[(''D'', ''D - Wear: 1'')]" env_up]
  by (simp add: parse_one_line)

text \<open>
  Claim C7. A cycle whose acquisition fails sends the alert if and only if the failure
  message differs from the one stored under the sentinel key. So of two failures in a row
  the second sends an alert if and only if its message differs from the first.
\<close>

theorem acquisition_failure_alert_only_when_message_differs:
  "(notified w (checkDiskStatusAndNotify env (Inl err) w)
      \<longleftrightarrow> map_index (lastErrorState w) sentinel \<noteq> acquisition_message err)
   \<and> (notified (checkDiskStatusAndNotify env (Inl err) w)
         (checkDiskStatusAndNotify env' (Inl err') (checkDiskStatusAndNotify env (Inl err) w))
      \<longleftrightarrow> err' \<noteq> err)"
  by (auto simp: failure_notified failure_remembered)

text \<open>From a fresh process: the first failure alerts, its repetition does not, another failure does.\<close>

theorem acquisition_failure_alert_only_when_message_differs_witness:
  "notified initial_world (checkDiskStatusAndNotify env_up (Inl ''exit status 1'') initial_world)
   \<and> \<not> notified (checkDiskStatusAndNotify env_up (Inl ''exit status 1'') initial_world)
         (checkDiskStatusAndNotify env_up (Inl ''exit status 1'')
            (checkDiskStatusAndNotify env_up (Inl ''exit status 1'') initial_world))
   \<and> notified (checkDiskStatusAndNotify env_up (Inl ''exit status 1'') initial_world)
         (checkDiskStatusAndNotify env_up (Inl ''access denied'')
            (checkDiskStatusAndNotify env_up (Inl ''exit status 1'') initial_world))"
  using acquisition_failure_alert_only_when_message_differs[of initial_world env_up
      "''exit status 1''" env_up "''exit status 1''"]
    acquisition_failure_alert_only_when_message_differs[of initial_world env_up
      "''exit status 1''" env_up "''access denied''"]
  by (simp add: initial_world_def map_index_def acquisition_message_def)

text \<open>
  Claim C8. The test command always delivers the summary after its check cycle, whatever
  the cycle found or sent: between one and five requests carrying the summary of the
  retained state. When that state is empty, the summary is exactly the sentence that no
  active problems were found; otherwise it is the heading followed by the listing of every
  description of the state, each once, in some order. After a report is read, the state
  holds exactly the entries the report parses to, so a report without problem lines gives
  the fixed sentence.
\<close>

theorem test_run_always_sends_the_summary_of_the_state:
  "(\<exists>n new. 1 \<le> n \<and> n \<le> 5 \<and>
      effects (run_test env output w)
        = effects (test_cycle env output w) @ [Log LogSendingSummary] @ new
          @ [Print ''Test complete. See log for details.''] \<and>
      requests new
        = map (request_event env
                 (fullMessage (hostname env)
                    (summaryMessage env (lastErrorState (test_cycle env output w)))))
            [request_number (test_cycle env output w)
               ..< request_number (test_cycle env output w) + n])
   \<and> (lastErrorState (test_cycle env output w) = []
       \<longrightarrow> summaryMessage env (lastErrorState (test_cycle env output w))
             = [CHR 0xE2, CHR 0x9C, CHR 0x85] @ '' Test complete. No active problems found.'')
   \<and> (lastErrorState (test_cycle env output w) \<noteq> []
       \<longrightarrow> (\<exists>ds. mset ds = mset (map snd (lastErrorState (test_cycle env output w))) \<and>
              summaryMessage env (lastErrorState (test_cycle env output w))
                = [CHR 0xE2, CHR 0x84, CHR 0xB9, CHR 0xEF, CHR 0xB8, CHR 0x8F]
                  @ '' Test complete. Current active problems:'' @ [CHR 0x0A, CHR 0x0A]
                  @ spec_listing ds))
   \<and> (\<forall>raw. output = Inr raw \<and> distinct (map fst (lastErrorState w))
         \<longrightarrow> set (lastErrorState (test_cycle env output w)) = set (parseProblems raw))
   \<and> (\<forall>raw. output = Inr raw \<and> parseProblems raw = []
         \<longrightarrow> lastErrorState (test_cycle env output w) = [])"
proof -
  define w1 where "w1 = test_cycle env output w"
  obtain n new where n: "1 \<le> n" "n \<le> maxRetries + 1"
    and eff: "effects (sendTelegramNotification env (summaryMessage env (lastErrorState w1))
                (emit (Log LogSendingSummary) w1))
        = effects (emit (Log LogSendingSummary) w1) @ new"
    and req: "requests new = map (request_event env
                 (fullMessage (hostname env) (summaryMessage env (lastErrorState w1))))
            [request_number (emit (Log LogSendingSummary) w1)
               ..< request_number (emit (Log LogSendingSummary) w1) + n]"
    using sendTelegramNotification_shape[of env "summaryMessage env (lastErrorState w1)"
        "emit (Log LogSendingSummary) w1"] by blast
  have "1 \<le> n \<and> n \<le> 5 \<and>
      effects (run_test env output w)
        = effects w1 @ [Log LogSendingSummary] @ new
          @ [Print ''Test complete. See log for details.''] \<and>
      requests new
        = map (request_event env
                 (fullMessage (hostname env) (summaryMessage env (lastErrorState w1))))
            [request_number w1 ..< request_number w1 + n]"
    using n eff req by (simp add: run_test_eq w1_def[symmetric] maxRetries_def)
  then have one: "\<exists>n new. 1 \<le> n \<and> n \<le> 5 \<and>
      effects (run_test env output w)
        = effects w1 @ [Log LogSendingSummary] @ new
          @ [Print ''Test complete. See log for details.''] \<and>
      requests new
        = map (request_event env
                 (fullMessage (hostname env) (summaryMessage env (lastErrorState w1))))
            [request_number w1 ..< request_number w1 + n]"
    by blast
  have two: "lastErrorState w1 = []
       \<longrightarrow> summaryMessage env (lastErrorState w1)
             = [CHR 0xE2, CHR 0x9C, CHR 0x85] @ '' Test complete. No active problems found.''"
    using summaryMessage_empty[of env] by simp
  have three: "lastErrorState w1 \<noteq> []
       \<longrightarrow> (\<exists>ds. mset ds = mset (map snd (lastErrorState w1)) \<and>
              summaryMessage env (lastErrorState w1)
                = [CHR 0xE2, CHR 0x84, CHR 0xB9, CHR 0xEF, CHR 0xB8, CHR 0x8F]
                  @ '' Test complete. Current active problems:'' @ [CHR 0x0A, CHR 0x0A]
                  @ spec_listing ds)"
    using summaryMessage_listing[of "lastErrorState w1" env] by blast
  have four: "\<forall>raw. output = Inr raw \<and> distinct (map fst (lastErrorState w))
         \<longrightarrow> set (lastErrorState w1) = set (parseProblems raw)"
    by (auto simp: w1_def test_cycle_def check_leaves_the_parsed_map)
  have five: "\<forall>raw. output = Inr raw \<and> parseProblems raw = [] \<longrightarrow> lastErrorState w1 = []"
    by (auto simp: w1_def test_cycle_def check_empty_report)
  from one two three four five show ?thesis unfolding w1_def by blast
qed

text \<open>
  Two test runs from a fresh process: on the report of two worn disks the summary lists
  both; on the report of one healthy disk it is the fixed sentence and the only request.
\<close>

theorem test_run_always_sends_the_summary_of_the_state_witness:
  "lastErrorState (test_cycle env_up (Inr report_two) initial_world)
     = [(''D'', ''D - Wear: 1''), (''E'', ''E - Wear: 2'')]
   \<and> summaryMessage env_up (lastErrorState (test_cycle env_up (Inr report_two) initial_world))
       = [CHR 0xE2, CHR 0x84, CHR 0xB9, CHR 0xEF, CHR 0xB8, CHR 0x8F]
         @ '' Test complete. Current active problems:'' @ [CHR 0x0A, CHR 0x0A]
         @ ''`E - Wear: 2`'' @ [CHR 0x0A] @ ''`D - Wear: 1`''
   \<and> parseProblems report_healthy = []
   \<and> summaryMessage env_up
        (lastErrorState (test_cycle env_up (Inr report_healthy) initial_world))
       = [CHR 0xE2, CHR 0x9C, CHR 0x85] @ '' Test complete. No active problems found.''
   \<and> requests (effects (run_test env_up (Inr report_healthy) initial_world))
       = [SendText (fullMessage ''h''
            ([CHR 0xE2, CHR 0x9C, CHR 0x85] @ '' Test complete. No active problems found.''))
            False]"
proof -
  have changed: "\<not> deepEqual (parseProblems report_two) (lastErrorState initial_world)"
    by (simp add: parse_two_lines deepEqual_def initial_world_def)
  have st: "lastErrorState (test_cycle env_up (Inr report_two) initial_world)
     = [(''D'', ''D - Wear: 1''), (''E'', ''E - Wear: 2'')]"
    using changed by (simp add: test_cycle_def check_changed parse_two_lines initial_world_def)
  have sm: "summaryMessage env_up [(''D'', ''D - Wear: 1''), (''E'', ''E - Wear: 2'')]
       = [CHR 0xE2, CHR 0x84, CHR 0xB9, CHR 0xEF, CHR 0xB8, CHR 0x8F]
         @ '' Test complete. Current active problems:'' @ [CHR 0x0A, CHR 0x0A]
         @ ''`E - Wear: 2`'' @ [CHR 0x0A] @ ''`D - Wear: 1`''"
    by (simp add: summaryMessage_def go_range_def env_up_def emoji_info_def newline_def)
  have cyc: "test_cycle env_up (Inr report_healthy) initial_world
      = \<lparr>lastErrorState = [],
         effects = [Print ''Running a one-time stateful check...'', Log LogManualTest,
                    Log (LogCheckResult report_healthy),
                    Log LogStatusUnchanged]\<rparr>"
    by (simp add: test_cycle_def check_unchanged parse_healthy initial_world_def emit_def)
  have rq: "requests (effects (run_test env_up (Inr report_healthy) initial_world))
       = [SendText (fullMessage ''h''
            ([CHR 0xE2, CHR 0x9C, CHR 0x85] @ '' Test complete. No active problems found.''))
            False]"
    by (simp add: run_test_eq cyc sendTelegramNotification_first_ok request_number_def
        env_up_def[THEN arg_cong, of transport_error] env_up_def[THEN arg_cong, of hostname]
        summaryMessage_def short_message message_eval)
  from test_run_always_sends_the_summary_of_the_state[of env_up "Inr report_two" initial_world]
       test_run_always_sends_the_summary_of_the_state[of env_up "Inr report_healthy" initial_world]
       st sm rq
  show ?thesis
    by (simp add: parse_healthy)
qed

text \<open>
  Claim C9, as amended. A failed acquisition with a new message replaces the whole
  retained state by the single entry under the key \<open>powershell_error\<close>. The next
  successful cycle always sends a notification. Its message has a detected block for
  every device its report flags, so also for each device that was flagged before the
  failure and still is, even with its description unchanged; it has no block for a device
  that was flagged before the failure and is flagged no more; and it ends with the block
  \<open>`powershell_error` is now OK.\<close> unless a line of the report has that key. The cycle
  retains the parsed map.
\<close>

theorem acquisition_failure_forgets_the_state_and_the_next_report_is_all_new:
  assumes "map_index (lastErrorState w) ''powershell_error''
             \<noteq> ''Failed to run PowerShell command: '' @ err"
  shows "lastErrorState (checkDiskStatusAndNotify env (Inl err) w)
           = [(''powershell_error'', ''Failed to run PowerShell command: '' @ err)]
     \<and> (\<exists>n new. 1 \<le> n \<and>
           effects (checkDiskStatusAndNotify env' (Inr raw)
                      (checkDiskStatusAndNotify env (Inl err) w))
             = effects (checkDiskStatusAndNotify env (Inl err) w)
               @ [Log (LogCheckResult raw), Log LogStatusChanged] @ new \<and>
           requests new
             = map (request_event env'
                      (fullMessage (hostname env')
                         (''Disk health status has changed!'' @ [CHR 0x0A, CHR 0x0A]
                          @ concat (map (\<lambda>(device, description).
                                [CHR 0xF0, CHR 0x9F, CHR 0x94, CHR 0xB4]
                                @ '' **Problem Detected/Changed:**'' @ [CHR 0x0A]
                                @ ''`'' @ description @ ''`'' @ [CHR 0x0A, CHR 0x0A])
                              (go_range (pick env' 0) (parseProblems raw)))
                          @ (if map_of (parseProblems raw) ''powershell_error'' = None
                             then [CHR 0xF0, CHR 0x9F, CHR 0x9F, CHR 0xA2]
                                  @ '' **Problem Resolved:**'' @ [CHR 0x0A]
                                  @ ''`powershell_error` is now OK.'' @ [CHR 0x0A, CHR 0x0A]
                             else []))))
                 [request_number (checkDiskStatusAndNotify env (Inl err) w)
                    ..< request_number (checkDiskStatusAndNotify env (Inl err) w) + n])
     \<and> (\<forall>device description.
           map_of (lastErrorState w) device \<noteq> None
             \<and> map_of (parseProblems raw) device = Some description
           \<longrightarrow> (device, description) \<in> set (go_range (pick env' 0) (parseProblems raw)))
     \<and> lastErrorState (checkDiskStatusAndNotify env' (Inr raw)
                          (checkDiskStatusAndNotify env (Inl err) w))
         = parseProblems raw"
proof -
  define w1 where "w1 = checkDiskStatusAndNotify env (Inl err) w"
  define cur where "cur = parseProblems raw"
  define msg where "msg = diff_message env' [(sentinel, acquisition_message err)] cur"
  have differs: "map_index (lastErrorState w) sentinel \<noteq> acquisition_message err"
    using assms by (simp add: sentinel_def acquisition_message_def)
  have st1: "lastErrorState w1 = [(sentinel, acquisition_message err)]"
    using differs by (simp add: w1_def check_failure_new)
  have literal: "msg = ''Disk health status has changed!'' @ [CHR 0x0A, CHR 0x0A]
                          @ concat (map (\<lambda>(device, description).
                                [CHR 0xF0, CHR 0x9F, CHR 0x94, CHR 0xB4]
                                @ '' **Problem Detected/Changed:**'' @ [CHR 0x0A]
                                @ ''`'' @ description @ ''`'' @ [CHR 0x0A, CHR 0x0A])
                              (go_range (pick env' 0) cur))
                          @ (if map_of cur ''powershell_error'' = None
                             then [CHR 0xF0, CHR 0x9F, CHR 0x9F, CHR 0xA2]
                                  @ '' **Problem Resolved:**'' @ [CHR 0x0A]
                                  @ ''`powershell_error` is now OK.'' @ [CHR 0x0A, CHR 0x0A]
                             else [])"
    unfolding msg_def cur_def diff_message_after_failure
    by (simp add: diff_header_def detected_block_def[abs_def] resolved_block_def emoji_red_def
        emoji_green_def sentinel_def newline_def)
  have "\<not> deepEqual cur (lastErrorState w1)"
    unfolding st1 cur_def by (rule changed_after_failure)
  then have cyc: "checkDiskStatusAndNotify env' (Inr raw) w1
     = (sendTelegramNotification env' msg
          (emit (Log LogStatusChanged) (emit (Log (LogCheckResult raw)) w1)))
        \<lparr>lastErrorState := cur\<rparr>"
    unfolding cur_def msg_def by (simp add: check_changed st1)
  obtain n new where n: "1 \<le> n"
    and eff: "effects (sendTelegramNotification env' msg
                (emit (Log LogStatusChanged) (emit (Log (LogCheckResult raw)) w1)))
        = effects (emit (Log LogStatusChanged) (emit (Log (LogCheckResult raw)) w1)) @ new"
    and req: "requests new = map (request_event env' (fullMessage (hostname env') msg))
            [request_number (emit (Log LogStatusChanged) (emit (Log (LogCheckResult raw)) w1))
               ..< request_number (emit (Log LogStatusChanged) (emit (Log (LogCheckResult raw)) w1)) + n]"
    using sendTelegramNotification_shape[of env' msg
        "emit (Log LogStatusChanged) (emit (Log (LogCheckResult raw)) w1)"] by blast
  have "1 \<le> n \<and>
           effects (checkDiskStatusAndNotify env' (Inr raw) w1)
             = effects w1 @ [Log (LogCheckResult raw), Log LogStatusChanged] @ new \<and>
           requests new
             = map (request_event env' (fullMessage (hostname env') msg))
                 [request_number w1 ..< request_number w1 + n]"
    using n eff req by (simp add: cyc)
  then have two: "\<exists>n new. 1 \<le> n \<and>
           effects (checkDiskStatusAndNotify env' (Inr raw) w1)
             = effects w1 @ [Log (LogCheckResult raw), Log LogStatusChanged] @ new \<and>
           requests new
             = map (request_event env' (fullMessage (hostname env') msg))
                 [request_number w1 ..< request_number w1 + n]"
    by blast
  have three: "\<forall>device description.
           map_of (lastErrorState w) device \<noteq> None \<and> map_of cur device = Some description
           \<longrightarrow> (device, description) \<in> set (go_range (pick env' 0) cur)"
    by (auto dest: map_of_SomeD)
  have four: "lastErrorState (checkDiskStatusAndNotify env' (Inr raw) w1) = cur"
    by (simp add: cyc)
  have one: "lastErrorState w1
           = [(''powershell_error'', ''Failed to run PowerShell command: '' @ err)]"
    by (simp add: st1 sentinel_def acquisition_message_def)
  from one two three four show ?thesis
    unfolding literal w1_def cur_def by blast
qed

text \<open>
  Disk \<open>D\<close> is flagged, the acquisition fails, and the next report still shows \<open>D\<close> as
  before: \<open>D\<close> is reported as detected again and the sentinel as resolved.
\<close>

theorem acquisition_failure_forgets_the_state_and_the_next_report_is_all_new_witness:
  "map_index [(''D'', ''D - Wear: 1'')] ''powershell_error''
     \<noteq> ''Failed to run PowerShell command: exit status 1''
   \<and> lastErrorState (checkDiskStatusAndNotify env_up (Inl ''exit status 1'')
         \<lparr>lastErrorState = [(''D'', ''D - Wear: 1'')], effects = []\<rparr>)
       = [(''powershell_error'', ''Failed to run PowerShell command: exit status 1'')]
   \<and> requests (effects (checkDiskStatusAndNotify env_up (Inr ''D - Wear: 1'')
         (checkDiskStatusAndNotify env_up (Inl ''exit status 1'')
            \<lparr>lastErrorState = [(''D'', ''D - Wear: 1'')], effects = []\<rparr>)))
       = [SendText (fullMessage ''h''
            ([CHR 0xE2, CHR 0x9A, CHR 0xA0, CHR 0xEF, CHR 0xB8, CHR 0x8F]
             @ '' Failed to run PowerShell command: exit status 1'')) False,
          SendText (fullMessage ''h''
            (''Disk health status has changed!'' @ [CHR 0x0A, CHR 0x0A]
             @ [CHR 0xF0, CHR 0x9F, CHR 0x94, CHR 0xB4]
             @ '' **Problem Detected/Changed:**'' @ [CHR 0x0A]
             @ ''`D - Wear: 1`'' @ [CHR 0x0A, CHR 0x0A]
             @ [CHR 0xF0, CHR 0x9F, CHR 0x9F, CHR 0xA2]
             @ '' **Problem Resolved:**'' @ [CHR 0x0A]
             @ ''`powershell_error` is now OK.'' @ [CHR 0x0A, CHR 0x0A])) False]
   \<and> (''D'', ''D - Wear: 1'') \<in> set (go_range (pick env_up 0) (parseProblems ''D - Wear: 1''))
   \<and> lastErrorState (checkDiskStatusAndNotify env_up (Inr ''D - Wear: 1'')
         (checkDiskStatusAndNotify env_up (Inl ''exit status 1'')
            \<lparr>lastErrorState = [(''D'', ''D - Wear: 1'')], effects = []\<rparr>))
       = [(''D'', ''D - Wear: 1'')]"
proof -
  have differs: "map_index (lastErrorState \<lparr>lastErrorState = [(''D'', ''D - Wear: 1'')], effects = []\<rparr>)
      ''powershell_error'' \<noteq> ''Failed to run PowerShell command: '' @ ''exit status 1''"
    by (simp add: map_index_def)
  have rq: "requests (effects (checkDiskStatusAndNotify env_up (Inr ''D - Wear: 1'')
         (checkDiskStatusAndNotify env_up (Inl ''exit status 1'')
            \<lparr>lastErrorState = [(''D'', ''D - Wear: 1'')], effects = []\<rparr>)))
       = [SendText (fullMessage ''h''
            ([CHR 0xE2, CHR 0x9A, CHR 0xA0, CHR 0xEF, CHR 0xB8, CHR 0x8F]
             @ '' Failed to run PowerShell command: exit status 1'')) False,
          SendText (fullMessage ''h''
            (''Disk health status has changed!'' @ [CHR 0x0A, CHR 0x0A]
             @ [CHR 0xF0, CHR 0x9F, CHR 0x94, CHR 0xB4]
             @ '' **Problem Detected/Changed:**'' @ [CHR 0x0A]
             @ ''`D - Wear: 1`'' @ [CHR 0x0A, CHR 0x0A]
             @ [CHR 0xF0, CHR 0x9F, CHR 0x9F, CHR 0xA2]
             @ '' **Problem Resolved:**'' @ [CHR 0x0A]
             @ ''`powershell_error` is now OK.'' @ [CHR 0x0A, CHR 0x0A])) False]"
  proof (rule after_failure_D_report)
    show "diff_message env_up [(sentinel, acquisition_message ''exit status 1'')]
             (parseProblems ''D - Wear: 1'')
       = ''Disk health status has changed!'' @ [CHR 0x0A, CHR 0x0A]
             @ [CHR 0xF0, CHR 0x9F, CHR 0x94, CHR 0xB4]
             @ '' **Problem Detected/Changed:**'' @ [CHR 0x0A]
             @ ''`D - Wear: 1`'' @ [CHR 0x0A, CHR 0x0A]
             @ [CHR 0xF0, CHR 0x9F, CHR 0x9F, CHR 0xA2]
             @ '' **Problem Resolved:**'' @ [CHR 0x0A]
             @ ''`powershell_error` is now OK.'' @ [CHR 0x0A, CHR 0x0A]"
      by (simp add: parse_one_line diff_eval)
  qed simp
  from acquisition_failure_forgets_the_state_and_the_next_report_is_all_new
         [OF differs, of env_up env_up "''D - Wear: 1''"] differs rq
  show ?thesis
    by (auto simp: parse_one_line)
qed

text \<open>
  Claim C9 as stated fails. Disk \<open>D\<close> is flagged and the acquisition fails. When the next
  report shows \<open>D\<close> healthy, the notification has no block for \<open>D\<close>: the device is not
  re-reported. When the next report has a line with the key \<open>powershell_error\<close>, the
  notification has no resolved block: the sentinel key is not reported as resolved.
\<close>

theorem recovered_device_and_sentinel_line_after_a_failure:
  "map_of [(''D'', ''D - Wear: 1'')] ''D'' = Some ''D - Wear: 1''
   \<and> parseProblems report_healthy = []
   \<and> requests (effects (checkDiskStatusAndNotify env_up (Inr report_healthy)
         (checkDiskStatusAndNotify env_up (Inl ''exit status 1'')
            \<lparr>lastErrorState = [(''D'', ''D - Wear: 1'')], effects = []\<rparr>)))
       = [SendText (fullMessage ''h''
            ([CHR 0xE2, CHR 0x9A, CHR 0xA0, CHR 0xEF, CHR 0xB8, CHR 0x8F]
             @ '' Failed to run PowerShell command: exit status 1'')) False,
          SendText (fullMessage ''h''
            (''Disk health status has changed!'' @ [CHR 0x0A, CHR 0x0A]
             @ [CHR 0xF0, CHR 0x9F, CHR 0x9F, CHR 0xA2]
             @ '' **Problem Resolved:**'' @ [CHR 0x0A]
             @ ''`powershell_error` is now OK.'' @ [CHR 0x0A, CHR 0x0A])) False]
   \<and> requests (effects (checkDiskStatusAndNotify env_up (Inr report_sentinel)
         (checkDiskStatusAndNotify env_up (Inl ''exit status 1'')
            \<lparr>lastErrorState = [(''D'', ''D - Wear: 1'')], effects = []\<rparr>)))
       = [SendText (fullMessage ''h''
            ([CHR 0xE2, CHR 0x9A, CHR 0xA0, CHR 0xEF, CHR 0xB8, CHR 0x8F]
             @ '' Failed to run PowerShell command: exit status 1'')) False,
          SendText (fullMessage ''h''
            (''Disk health status has changed!'' @ [CHR 0x0A, CHR 0x0A]
             @ [CHR 0xF0, CHR 0x9F, CHR 0x94, CHR 0xB4]
             @ '' **Problem Detected/Changed:**'' @ [CHR 0x0A]
             @ ''`powershell_error - Wear: 1`'' @ [CHR 0x0A, CHR 0x0A])) False]"
proof -
  have healthy: "diff_message env_up [(sentinel, acquisition_message ''exit status 1'')]
             (parseProblems report_healthy)
       = ''Disk health status has changed!'' @ [CHR 0x0A, CHR 0x0A]
             @ [CHR 0xF0, CHR 0x9F, CHR 0x9F, CHR 0xA2]
             @ '' **Problem Resolved:**'' @ [CHR 0x0A]
             @ ''`powershell_error` is now OK.'' @ [CHR 0x0A, CHR 0x0A]"
    by (simp add: parse_healthy diff_eval)
  have collide: "diff_message env_up [(sentinel, acquisition_message ''exit status 1'')]
             (parseProblems report_sentinel)
       = ''Disk health status has changed!'' @ [CHR 0x0A, CHR 0x0A]
             @ [CHR 0xF0, CHR 0x9F, CHR 0x94, CHR 0xB4]
             @ '' **Problem Detected/Changed:**'' @ [CHR 0x0A]
             @ ''`powershell_error - Wear: 1`'' @ [CHR 0x0A, CHR 0x0A]"
    by (simp add: parse_sentinel_line diff_eval)
  show ?thesis
    using after_failure_D_report[OF healthy] after_failure_D_report[OF collide]
    by (simp add: parse_healthy)
qed

text \<open>
  Claim C10. The test command first runs a whole check cycle and then sends the summary of
  the state that cycle left. When the cycle finds a change, the run delivers two
  notifications, first the diff and then the summary, and the summary is that of the
  parsed map, not of the state before the run.
\<close>

theorem test_run_checks_first_then_summarises:
  assumes "\<not> deepEqual (parseProblems raw) (lastErrorState w)"
  shows "run_test env (Inr raw) w
           = emit (Print ''Test complete. See log for details.'')
               (sendTelegramNotification env
                  (summaryMessage env (lastErrorState (test_cycle env (Inr raw) w)))
                  (emit (Log LogSendingSummary) (test_cycle env (Inr raw) w)))
     \<and> lastErrorState (test_cycle env (Inr raw) w) = parseProblems raw
     \<and> (\<exists>n1 n2. 1 \<le> n1 \<and> 1 \<le> n2 \<and>
           requests (effects (run_test env (Inr raw) w))
             = requests (effects w)
               @ map (request_event env
                        (fullMessage (hostname env)
                           (diff_message env (lastErrorState w) (parseProblems raw))))
                   [request_number w ..< request_number w + n1]
               @ map (request_event env
                        (fullMessage (hostname env) (summaryMessage env (parseProblems raw))))
                   [request_number w + n1 ..< request_number w + n1 + n2])"
proof -
  define w0 where
    "w0 = emit (Log LogStatusChanged) (emit (Log (LogCheckResult raw))
            (emit (Log LogManualTest) (emit (Print ''Running a one-time stateful check...'') w)))"
  define msg where "msg = diff_message env (lastErrorState w) (parseProblems raw)"
  define w1 where "w1 = test_cycle env (Inr raw) w"
  have w0: "requests (effects w0) = requests (effects w)" "request_number w0 = request_number w"
    by (simp_all add: w0_def)
  have cyc: "w1 = (sendTelegramNotification env msg w0)\<lparr>lastErrorState := parseProblems raw\<rparr>"
    using assms by (simp add: w1_def test_cycle_def check_changed w0_def msg_def)
  obtain n1 new1 where n1: "1 \<le> n1"
    and eff1: "effects (sendTelegramNotification env msg w0) = effects w0 @ new1"
    and req1: "requests new1 = map (request_event env (fullMessage (hostname env) msg))
                 [request_number w0 ..< request_number w0 + n1]"
    using sendTelegramNotification_shape[of env msg w0] by blast
  have st1: "lastErrorState w1 = parseProblems raw"
    by (simp add: cyc)
  have r1: "requests (effects w1) = requests (effects w) @ requests new1"
    by (simp add: cyc eff1 w0)
  have k1: "request_number w1 = request_number w + n1"
    using r1 req1 by (simp add: request_number_def)
  obtain n2 new2 where n2: "1 \<le> n2"
    and eff2: "effects (sendTelegramNotification env (summaryMessage env (lastErrorState w1))
                 (emit (Log LogSendingSummary) w1))
                = effects (emit (Log LogSendingSummary) w1) @ new2"
    and req2: "requests new2
       = map (request_event env (fullMessage (hostname env) (summaryMessage env (lastErrorState w1))))
           [request_number (emit (Log LogSendingSummary) w1)
              ..< request_number (emit (Log LogSendingSummary) w1) + n2]"
    using sendTelegramNotification_shape[of env "summaryMessage env (lastErrorState w1)"
        "emit (Log LogSendingSummary) w1"] by blast
  have "requests (effects (run_test env (Inr raw) w))
      = requests (effects w)
        @ map (request_event env (fullMessage (hostname env) msg))
            [request_number w ..< request_number w + n1]
        @ map (request_event env
                 (fullMessage (hostname env) (summaryMessage env (parseProblems raw))))
            [request_number w + n1 ..< request_number w + n1 + n2]"
    using eff2 req2 req1
    by (simp add: run_test_eq w1_def[symmetric] r1 k1 st1 w0)
  with n1 n2 have "\<exists>n1 n2. 1 \<le> n1 \<and> 1 \<le> n2 \<and>
           requests (effects (run_test env (Inr raw) w))
             = requests (effects w)
               @ map (request_event env (fullMessage (hostname env) msg))
                   [request_number w ..< request_number w + n1]
               @ map (request_event env
                        (fullMessage (hostname env) (summaryMessage env (parseProblems raw))))
                   [request_number w + n1 ..< request_number w + n1 + n2]"
    by blast
  then show ?thesis
    using st1 unfolding w1_def msg_def by (simp add: run_test_eq)
qed

text \<open>A test run from the empty state on a report with one worn disk: two notifications.\<close>

theorem test_run_checks_first_then_summarises_witness:
  "\<not> deepEqual (parseProblems ''D - Wear: 1'') (lastErrorState initial_world)
   \<and> lastErrorState (test_cycle env_up (Inr ''D - Wear: 1'') initial_world)
       = [(''D'', ''D - Wear: 1'')]
   \<and> requests (effects (run_test env_up (Inr ''D - Wear: 1'') initial_world))
       = [SendText (fullMessage ''h'' (diff_header @ detected_block ''D - Wear: 1'')) False,
          SendText (fullMessage ''h''
            (emoji_info @ '' Test complete. Current active problems:'' @ [newline, newline]
               @ ''`D - Wear: 1`'')) False]"
proof -
  have changed: "\<not> deepEqual (parseProblems ''D - Wear: 1'') (lastErrorState initial_world)"
    by (simp add: parse_one_line deepEqual_def initial_world_def)
  have msg: "diff_message env_up [] [(''D'', ''D - Wear: 1'')]
      = diff_header @ detected_block ''D - Wear: 1''"
    by (simp add: diff_message_def map_index_def go_range_def env_up_def)
  have cyc: "test_cycle env_up (Inr ''D - Wear: 1'') initial_world
      = \<lparr>lastErrorState = [(''D'', ''D - Wear: 1'')],
         effects = [Print ''Running a one-time stateful check...'', Log LogManualTest,
                    Log (LogCheckResult ''D - Wear: 1''), Log LogStatusChanged,
                    SendText (fullMessage ''h'' (diff_header @ detected_block ''D - Wear: 1'')) False,
                    Log LogSentOK]\<rparr>"
    using changed
    by (simp add: test_cycle_def check_changed parse_one_line initial_world_def msg
        sendTelegramNotification_first_ok request_number_def
        env_up_def[THEN arg_cong, of transport_error] env_up_def[THEN arg_cong, of hostname]
        short_message message_eval)
  have "requests (effects (run_test env_up (Inr ''D - Wear: 1'') initial_world))
       = [SendText (fullMessage ''h'' (diff_header @ detected_block ''D - Wear: 1'')) False,
          SendText (fullMessage ''h''
            (emoji_info @ '' Test complete. Current active problems:'' @ [newline, newline]
               @ ''`D - Wear: 1`'')) False]"
    by (simp add: run_test_eq cyc sendTelegramNotification_first_ok request_number_def
        env_up_def[THEN arg_cong, of transport_error] env_up_def[THEN arg_cong, of hostname]
        summaryMessage_def short_message message_eval)
  with changed show ?thesis
    using test_run_checks_first_then_summarises[OF changed, of env_up]
    by (simp add: parse_one_line)
qed

end
